theory Spec2Isabelle
  imports Complex_Main
begin

section \<open>The tile-identity engine (game2048.ts, current version)\<close>

text \<open>
  The engine of the 2048 clone exists in two versions. The current one keeps the board as
  a list of tile records with an identity; the earlier one keeps a 4x4 array of optional
  numbers. Both are embedded here, the first under the source's names, the second with
  the suffix \<open>_grid\<close>.

  JavaScript numbers are modelled as \<open>int\<close>: the engine only compares, doubles and
  adds them, and on integers these operations are exact as long as the results stay below
  \<open>2 ^ 53\<close> in absolute value (see \<open>safeValues\<close> below). The global counter \<open>nextTileId\<close> is threaded through explicitly: every
  function that may create a tile takes the counter and returns the new one. The two
  calls of \<open>Math.random()\<close> in \<open>spawnTile\<close> are inputs \<open>u1\<close>, \<open>u2\<close> of the model,
  taken from the interval from 0 (included) to 1 (excluded).
\<close>

datatype direction = Up | Down | Left | Right

datatype error = TypeError

record tile =
  id_t :: nat
  value_t :: int
  row :: int
  col :: int
  isNew :: "bool option"
  isMerged :: "bool option"

type_synonym tile_grid = "tile option list list"

record move_result =
  tiles :: "tile list"
  score :: int
  moved :: bool
  merged :: bool

text \<open>The local variables of \<open>move\<close> that its loops update, and the tile counter.\<close>

record move_state =
  grid :: tile_grid
  merged_grid :: "bool list list"
  totalScore :: int
  anyMoved :: bool
  anyMerged :: bool
  nextTileId :: nat

definition createTile :: "nat \<Rightarrow> int \<Rightarrow> int \<Rightarrow> int \<Rightarrow> bool \<Rightarrow> tile \<times> nat" where
  "createTile next_id v r c new =
     (\<lparr>id_t = next_id, value_t = v, row = r, col = c, isNew = Some new, isMerged = None\<rparr>,
      next_id + 1)"

definition getEmptyCells :: "tile list \<Rightarrow> (int \<times> int) list" where
  "getEmptyCells ts =
     (let occupied = set (map (\<lambda>t. (row t, col t)) ts)
      in [(r, c). r \<leftarrow> [0, 1, 2, 3], c \<leftarrow> [0, 1, 2, 3], (r, c) \<notin> occupied])"

definition clearFlags :: "tile \<Rightarrow> tile" where
  "clearFlags t = t\<lparr>isNew := Some False, isMerged := Some False\<rparr>"

definition spawnTile :: "tile list \<Rightarrow> real \<Rightarrow> real \<Rightarrow> nat \<Rightarrow> tile list \<times> nat" where
  "spawnTile ts u1 u2 next_id =
     (let emptyCells = getEmptyCells ts in
      if length emptyCells = 0 then (ts, next_id)
      else
        let (r, c) = emptyCells ! nat \<lfloor>u1 * real (length emptyCells)\<rfloor>;
            v = (if u2 < 9 / 10 then 2 else 4);
            (t, next_id') = createTile next_id v r c True
        in (map clearFlags ts @ [t], next_id'))"

definition getVector :: "direction \<Rightarrow> int \<times> int" where
  "getVector d = (case d of Up \<Rightarrow> (-1, 0) | Down \<Rightarrow> (1, 0) | Left \<Rightarrow> (0, -1) | Right \<Rightarrow> (0, 1))"

definition getTraversalOrder :: "direction \<Rightarrow> int list \<times> int list" where
  "getTraversalOrder d =
     ((if d = Down then rev [0, 1, 2, 3] else [0, 1, 2, 3]),
      (if d = Right then rev [0, 1, 2, 3] else [0, 1, 2, 3]))"

text \<open>
  Reading and writing \<open>grid[r][c]\<close>. Inside the loops of \<open>move\<close> both indices are
  between 0 and 3 and every row has at least four cells, so the plain list operations are
  what the array does. The only write whose index comes from the input is the one that
  puts the tiles on the grid: there a row outside 0..3 makes \<open>grid[t.row]\<close> undefined
  and the assignment raises a TypeError, a negative column sets a property that is no
  element of the array, and a column beyond the end extends the row with holes.
\<close>

definition cell :: "'a list list \<Rightarrow> int \<Rightarrow> int \<Rightarrow> 'a" where
  "cell g r c = g ! nat r ! nat c"

definition set_cell :: "'a list list \<Rightarrow> int \<Rightarrow> int \<Rightarrow> 'a \<Rightarrow> 'a list list" where
  "set_cell g r c v = g[nat r := (g ! nat r)[nat c := v]]"

definition js_set :: "'a option list \<Rightarrow> nat \<Rightarrow> 'a option \<Rightarrow> 'a option list" where
  "js_set xs i v =
     (if i < length xs then xs[i := v] else xs @ replicate (i - length xs) None @ [v])"

definition placeTile :: "tile \<Rightarrow> tile_grid \<Rightarrow> error + tile_grid" where
  "placeTile t g =
     (if row t < 0 \<or> row t > 3 then Inl TypeError
      else if col t < 0 then Inr g
      else Inr (g[nat (row t) := js_set (g ! nat (row t)) (nat (col t)) (Some (clearFlags t))]))"

fun placeTiles :: "tile list \<Rightarrow> tile_grid \<Rightarrow> error + tile_grid" where
  "placeTiles [] g = Inr g"
| "placeTiles (t # ts) g =
     (case placeTile t g of Inl e \<Rightarrow> Inl e | Inr g' \<Rightarrow> placeTiles ts g')"

text \<open>
  The inner \<open>while (true)\<close> of \<open>move\<close>: from (newRow, newCol) walk along the vector of
  the direction while the next cell is on the board and empty; step onto a tile of the same
  value whose cell has not been merged into, and stop there. The vector is read from the
  direction inside the function, so that the walk is seen to leave the board after at most
  three steps.
\<close>

function walk :: "direction \<Rightarrow> tile_grid \<Rightarrow> bool list list \<Rightarrow> int \<Rightarrow> int \<Rightarrow> int \<Rightarrow> int \<times> int" where
  "walk d g m v newRow newCol =
     (let nextRow = newRow + fst (getVector d);
          nextCol = newCol + snd (getVector d)
      in if nextRow < 0 \<or> nextRow > 3 \<or> nextCol < 0 \<or> nextCol > 3 then (newRow, newCol)
         else (case cell g nextRow nextCol of
                 None \<Rightarrow> walk d g m v nextRow nextCol
               | Some nextTile \<Rightarrow>
                   if value_t nextTile = v \<and> \<not> cell m nextRow nextCol
                   then (nextRow, nextCol) else (newRow, newCol)))"
  by pat_completeness auto
termination
  by (relation "measure (\<lambda>(d, g, m, v, r, c).
        (case d of Up \<Rightarrow> nat (r + 4) | Down \<Rightarrow> nat (8 - r) | Left \<Rightarrow> nat (c + 4) | Right \<Rightarrow> nat (8 - c)))")
     (auto simp: getVector_def split: direction.splits)

declare walk.simps [simp del]

text \<open>The body of the two nested \<open>for\<close> loops of \<open>move\<close>, for the cell (r, c).\<close>

definition moveCell :: "direction \<Rightarrow> int \<Rightarrow> int \<Rightarrow> move_state \<Rightarrow> move_state" where
  "moveCell d r c s =
     (case cell (grid s) r c of
        None \<Rightarrow> s
      | Some t \<Rightarrow>
          let (newRow, newCol) = walk d (grid s) (merged_grid s) (value_t t) r c in
          if newRow \<noteq> r \<or> newCol \<noteq> c then
            let g1 = set_cell (grid s) r c None;
                targetTile = cell g1 newRow newCol
            in if (case targetTile of None \<Rightarrow> False | Some tt \<Rightarrow> value_t tt = value_t t) then
                 let newValue = value_t t * 2;
                     (nt, next_id') = createTile (nextTileId s) newValue newRow newCol False
                 in s\<lparr>grid := set_cell g1 newRow newCol (Some (nt\<lparr>isMerged := Some True\<rparr>)),
                      merged_grid := set_cell (merged_grid s) newRow newCol True,
                      totalScore := totalScore s + newValue,
                      anyMoved := True,
                      anyMerged := True,
                      nextTileId := next_id'\<rparr>
               else
                 s\<lparr>grid := set_cell g1 newRow newCol (Some (t\<lparr>row := newRow, col := newCol\<rparr>)),
                   anyMoved := True\<rparr>
          else s)"

definition emptyTileGrid :: tile_grid where
  "emptyTileGrid = replicate 4 (replicate 4 None)"

definition flatTiles :: "tile_grid \<Rightarrow> tile list" where
  "flatTiles g = List.map_filter (\<lambda>x. x) (concat g)"

definition move :: "tile list \<Rightarrow> direction \<Rightarrow> nat \<Rightarrow> error + (move_result \<times> nat)" where
  "move ts d next_id =
     (case placeTiles ts emptyTileGrid of
        Inl e \<Rightarrow> Inl e
      | Inr g0 \<Rightarrow>
          let (rows, cols) = getTraversalOrder d;
              s0 = \<lparr>grid = g0, merged_grid = replicate 4 (replicate 4 False),
                    totalScore = 0, anyMoved = False, anyMerged = False, nextTileId = next_id\<rparr>;
              s = fold (\<lambda>r s. fold (\<lambda>c s. moveCell d r c s) cols s) rows s0
          in Inr (\<lparr>tiles = flatTiles (grid s), score = totalScore s,
                    moved = anyMoved s, merged = anyMerged s\<rparr>, nextTileId s))"

definition hasWon :: "tile list \<Rightarrow> bool" where
  "hasWon ts = list_ex (\<lambda>t. value_t t = 2048) ts"

text \<open>
  \<open>canMove\<close> builds a grid of values the way \<open>move\<close> builds its grid of tiles; the
  write has the same three outcomes for an index outside the board.
\<close>

definition placeValue :: "tile \<Rightarrow> int option list list \<Rightarrow> error + int option list list" where
  "placeValue t g =
     (if row t < 0 \<or> row t > 3 then Inl TypeError
      else if col t < 0 then Inr g
      else Inr (g[nat (row t) := js_set (g ! nat (row t)) (nat (col t)) (Some (value_t t))]))"

fun placeValues :: "tile list \<Rightarrow> int option list list \<Rightarrow> error + int option list list" where
  "placeValues [] g = Inr g"
| "placeValues (t # ts) g =
     (case placeValue t g of Inl e \<Rightarrow> Inl e | Inr g' \<Rightarrow> placeValues ts g')"

text \<open>
  The two nested loops of \<open>canMove\<close> return at the first pair of equal neighbours; the
  result is whether some cell has an equal neighbour to its right or below.
\<close>

definition hasEqualNeighbours :: "int option list list \<Rightarrow> bool" where
  "hasEqualNeighbours g =
     list_ex (\<lambda>r. list_ex (\<lambda>c.
        (c < 3 \<and> cell g r c = cell g r (c + 1)) \<or> (r < 3 \<and> cell g r c = cell g (r + 1) c))
        [0, 1, 2, 3]) [0, 1, 2, 3]"

definition canMove :: "tile list \<Rightarrow> error + bool" where
  "canMove ts =
     (if length (getEmptyCells ts) > 0 then Inr True
      else (case placeValues ts (replicate 4 (replicate 4 None)) of
              Inl e \<Rightarrow> Inl e
            | Inr g \<Rightarrow> Inr (hasEqualNeighbours g)))"

definition cloneTiles :: "tile list \<Rightarrow> tile list" where
  "cloneTiles ts = map (\<lambda>t. t) ts"

section \<open>The grid-indexed engine (game2048.ts, earlier version)\<close>

text \<open>
  A grid is an array of rows of optional numbers. Every grid the program builds has four
  rows of four cells (\<open>createEmptyGrid\<close>, and \<open>spawnTile_grid\<close> and \<open>move_grid\<close>
  keep the shape); the functions below read \<open>grid[row][col]\<close> for indices 0..3 only,
  and the theorems about them assume that shape.
\<close>

type_synonym Grid = "int option list list"

record grid_move_result =
  grid_of :: Grid
  score_of :: int
  moved_of :: bool
  merged_of :: bool

definition createEmptyGrid :: Grid where
  "createEmptyGrid = replicate 4 (replicate 4 None)"

definition getEmptyCells_grid :: "Grid \<Rightarrow> (nat \<times> nat) list" where
  "getEmptyCells_grid g = [(r, c). r \<leftarrow> [0 ..< 4], c \<leftarrow> [0 ..< 4], g ! r ! c = None]"

definition spawnTile_grid :: "Grid \<Rightarrow> real \<Rightarrow> real \<Rightarrow> Grid" where
  "spawnTile_grid g u1 u2 =
     (let emptyCells = getEmptyCells_grid g in
      if length emptyCells = 0 then g
      else
        let (r, c) = emptyCells ! nat \<lfloor>u1 * real (length emptyCells)\<rfloor>;
            v = (if u2 < 9 / 10 then 2 else 4)
        in g[r := (g ! r)[c := Some v]])"

text \<open>
  \<open>slideRow\<close>: the first loop runs over the non-null cells, here by recursion on the
  cells that are left (\<open>filtered[i]\<close> and \<open>filtered[i + 1]\<close> are the first two of
  them); the second loop pads the row with null up to four cells.
\<close>

fun mergeLoop :: "int list \<Rightarrow> int option list \<Rightarrow> int \<Rightarrow> bool \<Rightarrow> int option list \<times> int \<times> bool" where
  "mergeLoop (x # y # rest) newRow sc mg =
     (if x = y then mergeLoop rest (newRow @ [Some (x * 2)]) (sc + x * 2) True
      else mergeLoop (y # rest) (newRow @ [Some x]) sc mg)"
| "mergeLoop [x] newRow sc mg = (newRow @ [Some x], sc, mg)"
| "mergeLoop [] newRow sc mg = (newRow, sc, mg)"

definition padRow :: "int option list \<Rightarrow> int option list" where
  "padRow newRow = newRow @ replicate (4 - length newRow) None"

definition slideRow :: "int option list \<Rightarrow> int option list \<times> int \<times> bool" where
  "slideRow r =
     (let filtered = List.map_filter (\<lambda>x. x) r;
          (newRow, sc, mg) = mergeLoop filtered [] 0 False
      in (padRow newRow, sc, mg))"

definition rotateGrid90 :: "Grid \<Rightarrow> Grid" where
  "rotateGrid90 g =
     fold (\<lambda>r ng. fold (\<lambda>c ng. ng[c := (ng ! c)[3 - r := g ! r ! c]]) [0 ..< 4] ng)
          [0 ..< 4] createEmptyGrid"

definition rotateGrid270 :: "Grid \<Rightarrow> Grid" where
  "rotateGrid270 g =
     fold (\<lambda>r ng. fold (\<lambda>c ng. ng[3 - c := (ng ! (3 - c))[r := g ! r ! c]]) [0 ..< 4] ng)
          [0 ..< 4] createEmptyGrid"

definition rotateGrid180 :: "Grid \<Rightarrow> Grid" where
  "rotateGrid180 g =
     fold (\<lambda>r ng. fold (\<lambda>c ng. ng[3 - r := (ng ! (3 - r))[3 - c := g ! r ! c]]) [0 ..< 4] ng)
          [0 ..< 4] createEmptyGrid"

definition gridsEqual :: "Grid \<Rightarrow> Grid \<Rightarrow> bool" where
  "gridsEqual a b = list_all (\<lambda>r. list_all (\<lambda>c. a ! r ! c = b ! r ! c) [0 ..< 4]) [0 ..< 4]"

text \<open>The loop of \<open>move_grid\<close> over the four rows of the work grid.\<close>

definition slideRows :: "Grid \<times> int \<times> bool \<Rightarrow> Grid \<times> int \<times> bool" where
  "slideRows =
     fold (\<lambda>r (workGrid, totalScore, anyMerged).
            let (newRow, sc, mg) = slideRow (workGrid ! r)
            in (workGrid[r := newRow], totalScore + sc, (if mg then True else anyMerged)))
          [0 ..< 4]"

definition move_grid :: "Grid \<Rightarrow> direction \<Rightarrow> grid_move_result" where
  "move_grid g d =
     (let workGrid = map (\<lambda>r. r) g;
          workGrid = (if d = Up then rotateGrid270 workGrid
                      else if d = Down then rotateGrid90 workGrid
                      else if d = Right then rotateGrid180 workGrid
                      else workGrid);
          (workGrid, totalScore, anyMerged) = slideRows (workGrid, 0, False);
          workGrid = (if d = Up then rotateGrid90 workGrid
                      else if d = Down then rotateGrid270 workGrid
                      else if d = Right then rotateGrid180 workGrid
                      else workGrid)
      in \<lparr>grid_of = workGrid, score_of = totalScore,
          moved_of = (\<not> gridsEqual g workGrid), merged_of = anyMerged\<rparr>)"

definition hasWon_grid :: "Grid \<Rightarrow> bool" where
  "hasWon_grid g = list_ex (\<lambda>r. list_ex (\<lambda>c. g ! r ! c = Some 2048) [0 ..< 4]) [0 ..< 4]"

definition canMove_grid :: "Grid \<Rightarrow> bool" where
  "canMove_grid g =
     (if length (getEmptyCells_grid g) > 0 then True
      else list_ex (\<lambda>r. list_ex (\<lambda>c.
             (c < 3 \<and> g ! r ! c = g ! r ! (c + 1)) \<or> (r < 3 \<and> g ! r ! c = g ! (r + 1) ! c))
             [0 ..< 4]) [0 ..< 4])"

section \<open>Well-formed boards and example boards\<close>


definition onBoard :: "tile \<Rightarrow> bool" where
  "onBoard t = (0 \<le> row t \<and> row t \<le> 3 \<and> 0 \<le> col t \<and> col t \<le> 3)"

function isPowerOf2 :: "int \<Rightarrow> bool" where
  "isPowerOf2 v = (if v < 2 then v = 1 else even v \<and> isPowerOf2 (v div 2))"
  by pat_completeness auto
termination
  by (relation "measure nat") auto

declare isPowerOf2.simps [simp del]

definition well_formed :: "tile list \<Rightarrow> bool" where
  "well_formed ts =
     (length ts \<le> 16 \<and> list_all onBoard ts \<and> distinct (map (\<lambda>t. (row t, col t)) ts) \<and>
      list_all (\<lambda>t. 2 \<le> value_t t \<and> isPowerOf2 (value_t t)) ts)"

definition fullBoard :: "tile list \<Rightarrow> bool" where
  "fullBoard ts =
     list_all (\<lambda>r. list_all (\<lambda>c. list_ex (\<lambda>t. row t = r \<and> col t = c) ts) [0, 1, 2, 3]) [0, 1, 2, 3]"

definition wf_grid :: "'a list list \<Rightarrow> bool" where
  "wf_grid g = (length g = 4 \<and> list_all (\<lambda>r. length r = 4) g)"

definition fullGrid :: "Grid \<Rightarrow> bool" where
  "fullGrid g = list_all (list_all (\<lambda>x. x \<noteq> None)) g"

definition mkTile :: "nat \<Rightarrow> int \<Rightarrow> int \<Rightarrow> int \<Rightarrow> tile" where
  "mkTile i v r c = \<lparr>id_t = i, value_t = v, row = r, col = c, isNew = Some False, isMerged = Some False\<rparr>"

definition example_full :: "tile list" where
  "example_full =
     [mkTile 1 2 0 0, mkTile 2 4 0 1, mkTile 3 2 0 2, mkTile 4 4 0 3,
      mkTile 5 4 1 0, mkTile 6 2 1 1, mkTile 7 4 1 2, mkTile 8 2 1 3,
      mkTile 9 2 2 0, mkTile 10 4 2 1, mkTile 11 2 2 2, mkTile 12 4 2 3,
      mkTile 13 4 3 0, mkTile 14 2 3 1, mkTile 15 4 3 2, mkTile 16 2 3 3]"

definition example_full_grid :: Grid where
  "example_full_grid =
     [[Some 2, Some 4, Some 2, Some 4], [Some 4, Some 2, Some 4, Some 2],
      [Some 2, Some 4, Some 2, Some 4], [Some 4, Some 2, Some 4, Some 2]]"

section \<open>The move along one line of the board\<close>

text \<open>
  The definitions of this section are not in the source; the proofs use them. A move acts
  on each of the four lines of the board along its direction independently: for a line k
  and a position i on it (position 0 is the cell at the edge the tiles move to),
  \<open>pos d k i\<close> is the cell. A line is seen as four cells that hold the value and the
  merged flag of a tile, with the merged markers of its cells and its own tallies;
  \<open>lstep\<close> is what \<open>moveCell\<close> does to the line of the cell it is called for.
  \<open>pairUp\<close> merges equal neighbours of a list of values from the front, each value
  at most once, and marks the merged ones; \<open>valuesOf\<close> is the board of a list of
  tiles with the identities discarded.
\<close>

type_synonym lcell = "(int \<times> bool) option"

record line_state =
  cells :: "lcell list"
  marks :: "bool list"
  lscore :: int
  lmoved :: bool
  lmerged :: bool

fun lwalk :: "lcell list \<Rightarrow> bool list \<Rightarrow> int \<Rightarrow> nat \<Rightarrow> nat" where
  "lwalk cs ms v 0 = 0"
| "lwalk cs ms v (Suc j) =
     (case cs ! j of
        None \<Rightarrow> lwalk cs ms v j
      | Some (w, f) \<Rightarrow> if w = v \<and> \<not> ms ! j then j else Suc j)"

definition lstep :: "nat \<Rightarrow> line_state \<Rightarrow> line_state" where
  "lstep i L =
     (case cells L ! i of
        None \<Rightarrow> L
      | Some (v, f) \<Rightarrow>
          let j = lwalk (cells L) (marks L) v i in
          if j \<noteq> i then
            let cs1 = (cells L)[i := None] in
            if (case cs1 ! j of None \<Rightarrow> False | Some (w, f') \<Rightarrow> w = v) then
              L\<lparr>cells := cs1[j := Some (v * 2, True)], marks := (marks L)[j := True],
                lscore := lscore L + v * 2, lmoved := True, lmerged := True\<rparr>
            else L\<lparr>cells := cs1[j := Some (v, f)], lmoved := True\<rparr>
          else L)"

definition pos :: "direction \<Rightarrow> nat \<Rightarrow> nat \<Rightarrow> int \<times> int" where
  "pos d k i =
     (case d of
        Left \<Rightarrow> (int k, int i)
      | Right \<Rightarrow> (int k, 3 - int i)
      | Up \<Rightarrow> (int i, int k)
      | Down \<Rightarrow> (3 - int i, int k))"

definition cellAt :: "'a list list \<Rightarrow> int \<times> int \<Rightarrow> 'a" where
  "cellAt g p = cell g (fst p) (snd p)"

definition tileAbs :: "tile \<Rightarrow> int \<times> bool" where
  "tileAbs t = (value_t t, isMerged t = Some True)"

definition lcells :: "direction \<Rightarrow> tile_grid \<Rightarrow> nat \<Rightarrow> lcell list" where
  "lcells d g k = map (\<lambda>i. map_option tileAbs (cellAt g (pos d k i))) [0 ..< 4]"

definition lmarks :: "direction \<Rightarrow> bool list list \<Rightarrow> nat \<Rightarrow> bool list" where
  "lmarks d m k = map (\<lambda>i. cellAt m (pos d k i)) [0 ..< 4]"

definition placed :: "tile_grid \<Rightarrow> bool" where
  "placed g = (\<forall>r c. 0 \<le> r \<and> r \<le> 3 \<and> 0 \<le> c \<and> c \<le> 3 \<longrightarrow>
                 (\<forall>t. cell g r c = Some t \<longrightarrow> row t = r \<and> col t = c))"

definition sim :: "direction \<Rightarrow> move_state \<Rightarrow> (nat \<Rightarrow> line_state) \<Rightarrow> bool" where
  "sim d s ls =
     (wf_grid (grid s) \<and> wf_grid (merged_grid s) \<and> placed (grid s) \<and>
      (\<forall>k<4. cells (ls k) = lcells d (grid s) k \<and> marks (ls k) = lmarks d (merged_grid s) k) \<and>
      totalScore s = (\<Sum>k<4. lscore (ls k)) \<and>
      anyMoved s = (\<exists>k<4. lmoved (ls k)) \<and>
      anyMerged s = (\<exists>k<4. lmerged (ls k)))"

definition lineOf :: "direction \<Rightarrow> int \<Rightarrow> int \<Rightarrow> nat" where
  "lineOf d r c = (case d of Left \<Rightarrow> nat r | Right \<Rightarrow> nat r | Up \<Rightarrow> nat c | Down \<Rightarrow> nat c)"

definition idxOf :: "direction \<Rightarrow> int \<Rightarrow> int \<Rightarrow> nat" where
  "idxOf d r c = (case d of Left \<Rightarrow> nat c | Right \<Rightarrow> nat (3 - c) | Up \<Rightarrow> nat r | Down \<Rightarrow> nat (3 - r))"

definition lrun :: "line_state \<Rightarrow> line_state" where
  "lrun L = lstep 3 (lstep 2 (lstep 1 (lstep 0 L)))"

definition lineStep :: "direction \<Rightarrow> int \<Rightarrow> int \<Rightarrow> (nat \<Rightarrow> line_state) \<Rightarrow> nat \<Rightarrow> line_state" where
  "lineStep d r c ls = ls(lineOf d r c := lstep (idxOf d r c) (ls (lineOf d r c)))"

definition tileAt :: "tile list \<Rightarrow> int \<Rightarrow> int \<Rightarrow> tile option" where
  "tileAt ts r c = find (\<lambda>t. row t = r \<and> col t = c) ts"

definition valuesOf :: "tile list \<Rightarrow> Grid" where
  "valuesOf ts = map (\<lambda>r. map (\<lambda>c. map_option value_t (tileAt ts r c)) [0, 1, 2, 3]) [0, 1, 2, 3]"

definition vline :: "direction \<Rightarrow> tile list \<Rightarrow> nat \<Rightarrow> int option list" where
  "vline d ts k = map (\<lambda>i. map_option value_t (tileAt ts (fst (pos d k i)) (snd (pos d k i)))) [0 ..< 4]"

definition linit :: "int option list \<Rightarrow> line_state" where
  "linit r = \<lparr>cells = map (map_option (\<lambda>v. (v, False))) r, marks = replicate 4 False,
              lscore = 0, lmoved = False, lmerged = False\<rparr>"

fun pairUp :: "int list \<Rightarrow> (int \<times> bool) list" where
  "pairUp (x # y # rest) =
     (if x = y then (x * 2, True) # pairUp rest else (x, False) # pairUp (y # rest))"
| "pairUp [x] = [(x, False)]"
| "pairUp [] = []"

definition compact :: "int option list \<Rightarrow> int list" where
  "compact r = List.map_filter (\<lambda>x. x) r"

definition lineResult :: "int option list \<Rightarrow> lcell list" where
  "lineResult r = map Some (pairUp (compact r)) @ replicate (4 - length (pairUp (compact r))) None"

definition mergedSum :: "(int \<times> bool) list \<Rightarrow> int" where
  "mergedSum ps = sum_list (map fst (filter snd ps))"

definition gline :: "direction \<Rightarrow> Grid \<Rightarrow> nat \<Rightarrow> int option list" where
  "gline d g k = map (\<lambda>i. cellAt g (pos d k i)) [0 ..< 4]"

definition example_row :: "tile list" where
  "example_row = [mkTile 1 2 0 0, mkTile 2 2 0 2, mkTile 3 2 0 3]"

definition board :: "tile list \<Rightarrow> bool" where
  "board ts = (list_all onBoard ts \<and> distinct (map (\<lambda>t. (row t, col t)) ts))"

definition example_224 :: "tile list" where
  "example_224 = [mkTile 1 2 0 0, mkTile 2 2 0 1, mkTile 3 4 0 2]"

definition example_stuck :: "tile list" where
  "example_stuck = [mkTile 1 2 0 0, mkTile 2 4 0 1, mkTile 3 2 1 0]"

definition fline :: "direction \<Rightarrow> tile list \<Rightarrow> nat \<Rightarrow> lcell list" where
  "fline d ts k = map (\<lambda>i. map_option tileAbs (tileAt ts (fst (pos d k i)) (snd (pos d k i)))) [0 ..< 4]"

definition optSum :: "('a \<Rightarrow> int) \<Rightarrow> 'a option list \<Rightarrow> int" where
  "optSum F xs = sum_list (map (\<lambda>x. case x of None \<Rightarrow> 0 | Some p \<Rightarrow> F p) xs)"

definition example_row_grid :: tile_grid where
  "example_row_grid =
     [[Some (mkTile 1 2 0 0), None, Some (mkTile 2 2 0 2), Some (mkTile 3 2 0 3)],
      [None, None, None, None], [None, None, None, None], [None, None, None, None]]"

definition boardCells :: "(int \<times> int) list" where
  "boardCells = [(r, c). r \<leftarrow> [0, 1, 2, 3], c \<leftarrow> [0, 1, 2, 3]]"

definition adjacent :: "int \<times> int \<Rightarrow> int \<times> int \<Rightarrow> bool" where
  "adjacent p q = (\<bar>fst p - fst q\<bar> + \<bar>snd p - snd q\<bar> = 1)"

definition sameValue :: "int option \<Rightarrow> int option \<Rightarrow> bool" where
  "sameValue x y = (case (x, y) of (Some v, Some w) \<Rightarrow> v = w | _ \<Rightarrow> False)"

definition hasEmptyCell :: "Grid \<Rightarrow> bool" where
  "hasEmptyCell g = list_ex (\<lambda>p. cellAt g p = None) boardCells"

definition hasEqualAdjacent :: "Grid \<Rightarrow> bool" where
  "hasEqualAdjacent g =
     list_ex (\<lambda>p. list_ex (\<lambda>q. adjacent p q \<and> sameValue (cellAt g p) (cellAt g q)) boardCells) boardCells"

definition valueGrid :: "tile_grid \<Rightarrow> Grid" where
  "valueGrid g = map (map (map_option value_t)) g"

definition scanNeighbours :: "Grid \<Rightarrow> bool" where
  "scanNeighbours g =
     (\<exists>r c. 0 \<le> r \<and> r \<le> 3 \<and> 0 \<le> c \<and> c \<le> 3 \<and>
        ((c < 3 \<and> cell g r c = cell g r (c + 1)) \<or> (r < 3 \<and> cell g r c = cell g (r + 1) c)))"

text \<open>
  The engine computes with JavaScript numbers, which are exact on the integers up to
  \<open>2 ^ 53\<close>. The theorems about scores and sums of values assume that no tile value
  exceeds \<open>2 ^ 48\<close>: then every number the engine computes on a board of at most 16
  tiles is an integer below \<open>2 ^ 53\<close>, and the integer arithmetic of the model is the
  arithmetic of the code.
\<close>

definition safeValues :: "tile list \<Rightarrow> bool" where
  "safeValues ts = list_all (\<lambda>t. \<bar>value_t t\<bar> \<le> 2 ^ 48) ts"

section \<open>The game controllers (Game2048.tsx)\<close>

text \<open>
  The component \<open>Game2048\<close> keeps a \<open>GameState\<close> and changes it in the handlers
  \<open>handleMove\<close> and \<open>handleUndo\<close>. The current version works on tiles: it keeps, besides
  the state, the three refs \<open>isAnimatingRef\<close>, \<open>spawnTimeoutRef\<close> and \<open>moveVersionRef\<close>,
  and spawns the new tile in the callback of a timeout that \<open>handleMove\<close> sets. The earlier
  version works on grids and spawns in \<open>handleMove\<close> itself; its names carry the suffix
  \<open>_grid\<close>. The fields \<open>tiles\<close>, \<open>score\<close> and \<open>grid\<close> of the state are \<open>tiles_s\<close>,
  \<open>score_s\<close> and \<open>grid_s\<close> here.

  A state update \<open>setGameState(f)\<close> is taken to run \<open>f\<close> at once. The pending timeout is
  the field \<open>spawnTimeoutRef\<close>, which holds the version that the callback of the timeout has
  captured; \<open>spawnTimer\<close> is that callback, with the two random numbers of its
  \<open>spawnTile\<close>. The engine's tile counter is part of the controller. Playing a sound and
  writing the best score to the local storage do not act on anything the handlers read,
  and are left out.
\<close>

record game_state =
  tiles_s :: "tile list"
  score_s :: int
  bestScore :: int
  gameOver :: bool
  won :: bool
  keepPlaying :: bool
  previousState :: "(tile list \<times> int) option"

record controller =
  gameState :: game_state
  isAnimatingRef :: bool
  spawnTimeoutRef :: "nat option"
  moveVersionRef :: nat
  tileCounter :: nat

definition clearPendingSpawn :: "controller \<Rightarrow> controller" where
  "clearPendingSpawn c =
     c\<lparr>spawnTimeoutRef := None, moveVersionRef := moveVersionRef c + 1, isAnimatingRef := False\<rparr>"

definition handleMove :: "direction \<Rightarrow> controller \<Rightarrow> error + controller" where
  "handleMove d c =
     (if isAnimatingRef c then Inr c
      else
        let prev = gameState c in
        if gameOver prev \<or> (won prev \<and> \<not> keepPlaying prev) then Inr c
        else (case move (tiles_s prev) d (tileCounter c) of
                Inl e \<Rightarrow> Inl e
              | Inr (result, next_id) \<Rightarrow>
                  if \<not> moved result then Inr (c\<lparr>tileCounter := next_id\<rparr>)
                  else
                    let currentVersion = moveVersionRef c + 1;
                        newBestScore = max (score_s prev + score result) (bestScore prev)
                    in Inr (c\<lparr>gameState :=
                                 \<lparr>tiles_s = tiles result,
                                  score_s = score_s prev + score result,
                                  bestScore = newBestScore,
                                  gameOver = False,
                                  won = won prev,
                                  keepPlaying = keepPlaying prev,
                                  previousState = Some (cloneTiles (tiles_s prev), score_s prev)\<rparr>,
                               isAnimatingRef := True,
                               spawnTimeoutRef := Some currentVersion,
                               moveVersionRef := currentVersion,
                               tileCounter := next_id\<rparr>)))"

definition spawnTimer :: "real \<Rightarrow> real \<Rightarrow> controller \<Rightarrow> error + controller" where
  "spawnTimer u1 u2 c =
     (case spawnTimeoutRef c of
        None \<Rightarrow> Inr c
      | Some currentVersion \<Rightarrow>
          if moveVersionRef c \<noteq> currentVersion then Inr c
          else
            let current = gameState c;
                (tilesWithNew, next_id) = spawnTile (tiles_s current) u1 u2 (tileCounter c);
                won' = (\<not> won current \<and> \<not> keepPlaying current \<and> hasWon tilesWithNew)
            in (case canMove tilesWithNew of
                  Inl e \<Rightarrow> Inl e
                | Inr cm \<Rightarrow>
                    Inr (c\<lparr>gameState := current\<lparr>tiles_s := tilesWithNew, gameOver := \<not> cm, won := won'\<rparr>,
                           isAnimatingRef := False,
                           spawnTimeoutRef := None,
                           tileCounter := next_id\<rparr>)))"

definition handleUndo :: "controller \<Rightarrow> controller" where
  "handleUndo c =
     (let c1 = clearPendingSpawn c;
          prev = gameState c1
      in (case previousState prev of
            None \<Rightarrow> c1
          | Some (ts, sc) \<Rightarrow>
              c1\<lparr>gameState := prev\<lparr>tiles_s := ts, score_s := sc, gameOver := False, won := False,
                                    previousState := None\<rparr>\<rparr>))"

record game_state_grid =
  grid_s :: Grid
  score_g :: int
  bestScore_g :: int
  gameOver_g :: bool
  won_g :: bool
  keepPlaying_g :: bool
  previousState_g :: "(Grid \<times> int) option"

definition handleMove_grid :: "direction \<Rightarrow> real \<Rightarrow> real \<Rightarrow> game_state_grid \<Rightarrow> game_state_grid" where
  "handleMove_grid d u1 u2 prev =
     (if gameOver_g prev \<or> (won_g prev \<and> \<not> keepPlaying_g prev) then prev
      else
        let result = move_grid (grid_s prev) d in
        if \<not> moved_of result then prev
        else
          let newGrid = spawnTile_grid (grid_of result) u1 u2;
              newScore = score_g prev + score_of result;
              newBestScore = max newScore (bestScore_g prev);
              won' = (\<not> won_g prev \<and> \<not> keepPlaying_g prev \<and> hasWon_grid newGrid);
              gameOver' = (\<not> canMove_grid newGrid)
          in \<lparr>grid_s = newGrid, score_g = newScore, bestScore_g = newBestScore,
              gameOver_g = gameOver', won_g = won', keepPlaying_g = keepPlaying_g prev,
              previousState_g = Some (grid_s prev, score_g prev)\<rparr>)"

definition handleUndo_grid :: "game_state_grid \<Rightarrow> game_state_grid" where
  "handleUndo_grid prev =
     (case previousState_g prev of
        None \<Rightarrow> prev
      | Some (g, sc) \<Rightarrow>
          prev\<lparr>grid_s := g, score_g := sc, gameOver_g := False, won_g := False,
               previousState_g := None\<rparr>)"

definition example_start :: controller where
  "example_start =
     \<lparr>gameState = \<lparr>tiles_s = [mkTile 1 2 0 1, mkTile 2 2 1 2], score_s = 0, bestScore = 0,
                    gameOver = False, won = False, keepPlaying = False, previousState = None\<rparr>,
      isAnimatingRef = False, spawnTimeoutRef = None, moveVersionRef = 0, tileCounter = 3\<rparr>"

definition example_start_grid :: game_state_grid where
  "example_start_grid =
     \<lparr>grid_s = [[None, Some 2, None, None], [None, None, Some 2, None],
                [None, None, None, None], [None, None, None, None]],
      score_g = 0, bestScore_g = 0, gameOver_g = False, won_g = False, keepPlaying_g = False,
      previousState_g = None\<rparr>"

definition example_moved :: controller where
  "example_moved = projr (handleMove Left example_start)"

definition example_spawned :: controller where
  "example_spawned = projr (spawnTimer 0 0 example_moved)"

definition example_second :: controller where
  "example_second = projr (handleMove Up example_spawned)"

definition example_moved_grid :: game_state_grid where
  "example_moved_grid = handleMove_grid Left 0 0 example_start_grid"

section \<open>Properties\<close>

subsection \<open>The move of the tile engine, line by line\<close>

lemma wf_grid_shape:
  assumes "wf_grid g"
  obtains a0 a1 a2 a3 b0 b1 b2 b3 c0 c1 c2 c3 d0 d1 d2 d3 where
    "g = [[a0, a1, a2, a3], [b0, b1, b2, b3], [c0, c1, c2, c3], [d0, d1, d2, d3]]"
proof -
  have len4: "\<exists>a b c d. xs = [a, b, c, d]" if "length xs = 4" for xs :: "'b list"
    using that by (auto simp: length_Suc_conv eval_nat_numeral)
  from assms obtain r0 r1 r2 r3 where g: "g = [r0, r1, r2, r3]"
    using len4 [of g] by (auto simp: wf_grid_def)
  with assms have "length r0 = 4" "length r1 = 4" "length r2 = 4" "length r3 = 4"
    by (auto simp: wf_grid_def)
  then show thesis
    using len4 [of r0] len4 [of r1] len4 [of r2] len4 [of r3] g that by blast
qed

lemma less4: "(k::nat) < 4 \<longleftrightarrow> k = 0 \<or> k = 1 \<or> k = 2 \<or> k = 3"
  by auto

lemma all_less4: "(\<forall>k<4::nat. P k) \<longleftrightarrow> P 0 \<and> P 1 \<and> P 2 \<and> P 3"
  by (auto simp: less4)

lemma ex_less4: "(\<exists>k<4::nat. P k) \<longleftrightarrow> P 0 \<or> P 1 \<or> P 2 \<or> P 3"
  by (auto simp: less4)

lemma sum_less4: "(\<Sum>k<4::nat. f k) = f 0 + f 1 + f 2 + (f 3 :: int)"
proof -
  have "{..<4::nat} = {0, 1, 2, 3}" by auto
  then show ?thesis by simp
qed

lemma cell_set_cell:
  assumes "wf_grid g" "0 \<le> r" "r \<le> 3" "0 \<le> c" "c \<le> 3" "0 \<le> r'" "r' \<le> 3" "0 \<le> c'" "c' \<le> 3"
  shows "cell (set_cell g r c x) r' c' = (if r' = r \<and> c' = c then x else cell g r' c')"
proof -
  have "nat r < length g" "nat r' < length g" using assms by (auto simp: wf_grid_def)
  moreover have "nat c < length (g ! nat r)" using assms by (auto simp: wf_grid_def list_all_length)
  moreover have "nat r' = nat r \<longleftrightarrow> r' = r" "nat c' = nat c \<longleftrightarrow> c' = c" using assms by auto
  ultimately show ?thesis
    by (auto simp: cell_def set_cell_def nth_list_update)
qed

lemma wf_grid_set_cell: "wf_grid g \<Longrightarrow> wf_grid (set_cell g r c x)"
  by (cases "nat r < length g") (auto simp: wf_grid_def set_cell_def list_all_length nth_list_update)

lemma pos_range: "k < 4 \<Longrightarrow> i < 4 \<Longrightarrow>
   0 \<le> fst (pos d k i) \<and> fst (pos d k i) \<le> 3 \<and> 0 \<le> snd (pos d k i) \<and> snd (pos d k i) \<le> 3"
  by (cases d) (auto simp: pos_def)

lemma pos_inj: "i < 4 \<Longrightarrow> i' < 4 \<Longrightarrow> pos d k i = pos d k' i' \<longleftrightarrow> k = k' \<and> i = i'"
  by (cases d) (auto simp: pos_def)

lemma cellAt_set_cell:
  assumes "wf_grid g" "k < 4" "i < 4" "k' < 4" "i' < 4"
  shows "cellAt (set_cell g (fst (pos d k i)) (snd (pos d k i)) x) (pos d k' i') =
         (if k' = k \<and> i' = i then x else cellAt g (pos d k' i'))"
proof -
  have "(fst (pos d k' i') = fst (pos d k i) \<and> snd (pos d k' i') = snd (pos d k i)) \<longleftrightarrow> (k' = k \<and> i' = i)"
    using pos_inj [of i' i d k' k] assms by (auto simp: prod_eq_iff)
  then show ?thesis
    unfolding cellAt_def
    using cell_set_cell [OF assms(1), of "fst (pos d k i)" "snd (pos d k i)" "fst (pos d k' i')" "snd (pos d k' i')" x]
      pos_range [OF assms(2,3), of d] pos_range [OF assms(4,5), of d]
    by simp
qed

lemma lcells_nth: "i < 4 \<Longrightarrow> lcells d g k ! i = map_option tileAbs (cellAt g (pos d k i))"
  by (simp add: lcells_def)

lemma lmarks_nth: "i < 4 \<Longrightarrow> lmarks d m k ! i = cellAt m (pos d k i)"
  by (simp add: lmarks_def)

lemma length_lcells [simp]: "length (lcells d g k) = 4" by (simp add: lcells_def)

lemma length_lmarks [simp]: "length (lmarks d g k) = 4" by (simp add: lmarks_def)

lemma lcells_set_cell:
  assumes "wf_grid g" "k < 4" "i < 4" "k' < 4"
  shows "lcells d (set_cell g (fst (pos d k i)) (snd (pos d k i)) x) k' =
         (if k' = k then (lcells d g k)[i := map_option tileAbs x] else lcells d g k')"
  by (rule nth_equalityI) (auto simp: lcells_nth cellAt_set_cell assms nth_list_update)

lemma lmarks_set_cell:
  assumes "wf_grid m" "k < 4" "i < 4" "k' < 4"
  shows "lmarks d (set_cell m (fst (pos d k i)) (snd (pos d k i)) x) k' =
         (if k' = k then (lmarks d m k)[i := x] else lmarks d m k')"
  by (rule nth_equalityI) (auto simp: lmarks_nth cellAt_set_cell assms nth_list_update)

lemma pos_Suc_next:
  "k < 4 \<Longrightarrow> Suc j < 4 \<Longrightarrow>
   (fst (pos d k (Suc j)) + fst (getVector d), snd (pos d k (Suc j)) + snd (getVector d)) = pos d k j"
  by (cases d) (auto simp: pos_def getVector_def)

lemma pos_0_next:
  "k < 4 \<Longrightarrow>
   fst (pos d k 0) + fst (getVector d) < 0 \<or> fst (pos d k 0) + fst (getVector d) > 3 \<or>
   snd (pos d k 0) + snd (getVector d) < 0 \<or> snd (pos d k 0) + snd (getVector d) > 3"
  by (cases d) (auto simp: pos_def getVector_def)

lemma walk_lwalk:
  assumes "k < 4"
  shows "j < 4 \<Longrightarrow>
    walk d g m v (fst (pos d k j)) (snd (pos d k j)) = pos d k (lwalk (lcells d g k) (lmarks d m k) v j)"
proof (induction j)
  case 0
  show ?case
    using pos_0_next [OF assms, of d] by (subst walk.simps) (auto simp: Let_def)
next
  case (Suc j)
  have nxt: "fst (pos d k (Suc j)) + fst (getVector d) = fst (pos d k j)"
            "snd (pos d k (Suc j)) + snd (getVector d) = snd (pos d k j)"
    using pos_Suc_next [OF assms Suc.prems, of d] by (auto simp: prod_eq_iff)
  have j: "j < 4" using Suc.prems by simp
  have rng: "\<not> (fst (pos d k j) < 0 \<or> fst (pos d k j) > 3 \<or> snd (pos d k j) < 0 \<or> snd (pos d k j) > 3)"
    using pos_range [OF assms j, of d] by auto
  show ?case
  proof (cases "cellAt g (pos d k j)")
    case None
    then show ?thesis
      using Suc.IH [OF j] rng
      by (subst walk.simps) (simp add: nxt Let_def lcells_nth j cellAt_def)
  next
    case (Some nt)
    then show ?thesis
      using rng
      by (subst walk.simps) (auto simp: nxt Let_def lcells_nth lmarks_nth j cellAt_def tileAbs_def)
  qed
qed

lemma lwalk_le: "lwalk cs ms v i \<le> i"
  by (induction i) (auto split: option.splits)

lemma sum4_upd:
  fixes f :: "'a \<Rightarrow> int" and k :: nat
  assumes "k < 4"
  shows "(\<Sum>k'<4. f ((ls(k := x)) k')) = (\<Sum>k'<4. f (ls k')) - f (ls k) + f x"
proof -
  have "{..<4::nat} = {0, 1, 2, 3}" by auto
  moreover have "k = 0 \<or> k = 1 \<or> k = 2 \<or> k = 3" using assms by auto
  ultimately show ?thesis by auto
qed

lemma ex4_upd:
  assumes "k < 4"
  shows "(\<exists>k'<4. P ((ls(k := x)) k')) = (P x \<or> (\<exists>k'<4. k' \<noteq> k \<and> P (ls k')))"
  using assms by auto

lemma placed_set_cell:
  assumes "wf_grid g" "placed g" "0 \<le> r" "r \<le> 3" "0 \<le> c" "c \<le> 3"
    "\<And>t. x = Some t \<Longrightarrow> row t = r \<and> col t = c"
  shows "placed (set_cell g r c x)"
  unfolding placed_def
proof (intro allI impI)
  fix r' c' t
  assume rc: "0 \<le> r' \<and> r' \<le> 3 \<and> 0 \<le> c' \<and> c' \<le> 3" and t: "cell (set_cell g r c x) r' c' = Some t"
  have "cell (set_cell g r c x) r' c' = (if r' = r \<and> c' = c then x else cell g r' c')"
    using cell_set_cell [OF assms(1,3,4,5,6), of r' c' x] rc by simp
  with t assms(2,7) rc show "row t = r' \<and> col t = c'"
    by (auto simp: placed_def split: if_splits)
qed

lemma moveCell_sim:
  assumes s: "sim d s ls" and k: "k < 4" and i: "i < 4"
  shows "sim d (moveCell d (fst (pos d k i)) (snd (pos d k i)) s) (ls(k := lstep i (ls k)))"
proof -
  let ?g = "grid s" and ?m = "merged_grid s"
  let ?cs = "lcells d ?g k" and ?ms = "lmarks d ?m k"
  from s have wg: "wf_grid ?g" and wm: "wf_grid ?m" and pl: "placed ?g"
    and cs: "cells (ls k) = ?cs" and ms: "marks (ls k) = ?ms"
    using k by (auto simp: sim_def)
  have same: "ls(k := ls k) = ls" by auto
  show ?thesis
  proof (cases "cellAt ?g (pos d k i)")
    case None
    then have "moveCell d (fst (pos d k i)) (snd (pos d k i)) s = s"
      by (simp add: moveCell_def cellAt_def)
    moreover have "lstep i (ls k) = ls k"
      using None by (simp add: lstep_def cs lcells_nth i)
    ultimately show ?thesis using s same by simp
  next
    case (Some t)
    define v where "v = value_t t"
    define j where "j = lwalk ?cs ?ms v i"
    have ci: "?cs ! i = Some (v, isMerged t = Some True)"
      using Some by (simp add: lcells_nth i tileAbs_def v_def)
    have wk: "walk d ?g ?m (value_t t) (fst (pos d k i)) (snd (pos d k i)) = pos d k j"
      using walk_lwalk [OF k i] by (simp add: j_def v_def)
    have j4: "j < 4" using lwalk_le [of ?cs ?ms v i] i by (simp add: j_def)
    have neq: "(fst (pos d k j) \<noteq> fst (pos d k i) \<or> snd (pos d k j) \<noteq> snd (pos d k i)) \<longleftrightarrow> j \<noteq> i"
      using pos_inj [of j i d k k] j4 i by (auto simp: prod_eq_iff)
    show ?thesis
    proof (cases "j = i")
      case True
      then have "moveCell d (fst (pos d k i)) (snd (pos d k i)) s = s"
        using Some wk by (simp add: moveCell_def cellAt_def split_def)
      moreover have "lstep i (ls k) = ls k"
        using True j_def by (simp add: lstep_def cs ms ci)
      ultimately show ?thesis using s same by simp
    next
      case False
      let ?g1 = "set_cell ?g (fst (pos d k i)) (snd (pos d k i)) None"
      have wg1: "wf_grid ?g1" using wg by (rule wf_grid_set_cell)
      have tgt: "cellAt ?g1 (pos d k j) = cellAt ?g (pos d k j)"
        using cellAt_set_cell [OF wg k i k j4, of d None] False by simp
      have cj: "(?cs[i := None]) ! j = map_option tileAbs (cellAt ?g (pos d k j))"
        using False j4 by (simp add: lcells_nth)
      have ri: "0 \<le> fst (pos d k i) \<and> fst (pos d k i) \<le> 3 \<and> 0 \<le> snd (pos d k i) \<and> snd (pos d k i) \<le> 3"
        using pos_range [OF k i] .
      have rj: "0 \<le> fst (pos d k j) \<and> fst (pos d k j) \<le> 3 \<and> 0 \<le> snd (pos d k j) \<and> snd (pos d k j) \<le> 3"
        using pos_range [OF k j4] .
      have pl1: "placed ?g1"
        using placed_set_cell [OF wg pl, of "fst (pos d k i)" "snd (pos d k i)" None] ri by simp
      have jd: "lwalk ?cs ?ms v i = j" by (simp add: j_def)
      have cj': "(case ?cs ! j of None \<Rightarrow> False | Some (w, f') \<Rightarrow> w = v) =
                 (case cellAt ?g (pos d k j) of None \<Rightarrow> False | Some tt \<Rightarrow> value_t tt = v)"
        using j4 by (simp add: lcells_nth tileAbs_def split: option.splits)
      show ?thesis
      proof (cases "case cellAt ?g (pos d k j) of None \<Rightarrow> False | Some tt \<Rightarrow> value_t tt = v")
        case True
        let ?nt = "\<lparr>id_t = nextTileId s, value_t = value_t t * 2, row = fst (pos d k j),
                     col = snd (pos d k j), isNew = Some False, isMerged = Some True\<rparr>"
        let ?s' = "s\<lparr>grid := set_cell ?g1 (fst (pos d k j)) (snd (pos d k j)) (Some ?nt),
                      merged_grid := set_cell ?m (fst (pos d k j)) (snd (pos d k j)) True,
                      totalScore := totalScore s + value_t t * 2,
                      anyMoved := True, anyMerged := True, nextTileId := nextTileId s + 1\<rparr>"
        let ?L' = "(ls k)\<lparr>cells := ?cs[i := None, j := Some (v * 2, True)], marks := ?ms[j := True],
                lscore := lscore (ls k) + v * 2, lmoved := True, lmerged := True\<rparr>"
        have m1: "moveCell d (fst (pos d k i)) (snd (pos d k i)) s = ?s'"
          using Some wk neq False True [unfolded v_def] tgt
          by (simp add: moveCell_def cellAt_def Let_def createTile_def split_def)
        have l1: "lstep i (ls k) = ?L'"
          using False True
          by (simp add: lstep_def cs ms ci jd cj' Let_def)
        have "sim d ?s' (ls(k := ?L'))"
          unfolding sim_def
        proof (intro conjI allI impI)
          show "wf_grid (grid ?s')" using wg1 by (simp add: wf_grid_set_cell)
          show "wf_grid (merged_grid ?s')" using wm by (simp add: wf_grid_set_cell)
          show "placed (grid ?s')"
            using placed_set_cell [OF wg1 pl1, of "fst (pos d k j)" "snd (pos d k j)" "Some ?nt"] rj by simp
          show "totalScore ?s' = (\<Sum>k'<4. lscore ((ls(k := ?L')) k'))"
            using s sum4_upd [OF k, of lscore ls ?L'] by (simp add: sim_def v_def)
          show "anyMoved ?s' = (\<exists>k'<4. lmoved ((ls(k := ?L')) k'))"
            using k by (auto simp: ex4_upd)
          show "anyMerged ?s' = (\<exists>k'<4. lmerged ((ls(k := ?L')) k'))"
            using k by (auto simp: ex4_upd)
        next
          fix k' :: nat assume k': "k' < 4"
          show "cells ((ls(k := ?L')) k') = lcells d (grid ?s') k'"
            using s k' by (simp add: lcells_set_cell wg wg1 k i j4 tileAbs_def v_def sim_def)
          show "marks ((ls(k := ?L')) k') = lmarks d (merged_grid ?s') k'"
            using s k' by (simp add: lmarks_set_cell wm k j4 sim_def)
        qed
        then show ?thesis by (simp only: m1 l1)
      next
        case nomerge: False
        let ?t' = "t\<lparr>row := fst (pos d k j), col := snd (pos d k j)\<rparr>"
        let ?s' = "s\<lparr>grid := set_cell ?g1 (fst (pos d k j)) (snd (pos d k j)) (Some ?t'),
                      anyMoved := True\<rparr>"
        let ?L' = "(ls k)\<lparr>cells := ?cs[i := None, j := Some (v, isMerged t = Some True)], lmoved := True\<rparr>"
        have m1: "moveCell d (fst (pos d k i)) (snd (pos d k i)) s = ?s'"
          using Some wk neq False nomerge [unfolded v_def] tgt
          by (simp add: moveCell_def cellAt_def Let_def createTile_def split_def)
        have l1: "lstep i (ls k) = ?L'"
          using False nomerge
          by (simp add: lstep_def cs ms ci jd cj' Let_def)
        have "sim d ?s' (ls(k := ?L'))"
          unfolding sim_def
        proof (intro conjI allI impI)
          show "wf_grid (grid ?s')" using wg1 by (simp add: wf_grid_set_cell)
          show "wf_grid (merged_grid ?s')" using wm by simp
          show "placed (grid ?s')"
            using placed_set_cell [OF wg1 pl1, of "fst (pos d k j)" "snd (pos d k j)" "Some ?t'"] rj by simp
          show "totalScore ?s' = (\<Sum>k'<4. lscore ((ls(k := ?L')) k'))"
            using s sum4_upd [OF k, of lscore ls ?L'] by (simp add: sim_def)
          show "anyMoved ?s' = (\<exists>k'<4. lmoved ((ls(k := ?L')) k'))"
            using k by (auto simp: ex4_upd)
          show "anyMerged ?s' = (\<exists>k'<4. lmerged ((ls(k := ?L')) k'))"
            using s k by (auto simp: ex4_upd sim_def)
        next
          fix k' :: nat assume k': "k' < 4"
          show "cells ((ls(k := ?L')) k') = lcells d (grid ?s') k'"
            using s k' by (simp add: lcells_set_cell wg wg1 k i j4 tileAbs_def v_def sim_def)
          show "marks ((ls(k := ?L')) k') = lmarks d (merged_grid ?s') k'"
            using s k' by (simp add: sim_def)
        qed
        then show ?thesis by (simp only: m1 l1)
      qed
    qed
  qed
qed

lemma pos_lineOf_idxOf:
  assumes "0 \<le> r" "r \<le> 3" "0 \<le> c" "c \<le> 3"
  shows "pos d (lineOf d r c) (idxOf d r c) = (r, c)" "lineOf d r c < 4" "idxOf d r c < 4"
  using assms by (cases d; simp add: pos_def lineOf_def idxOf_def)+

lemma moveCell_sim_rc:
  assumes "sim d s ls" "0 \<le> r" "r \<le> 3" "0 \<le> c" "c \<le> 3"
  shows "sim d (moveCell d r c s) (lineStep d r c ls)"
  using moveCell_sim [OF assms(1), of "lineOf d r c" "idxOf d r c"] pos_lineOf_idxOf [OF assms(2-5), of d]
  by (simp add: lineStep_def)

lemma fold_cols_sim:
  assumes "0 \<le> r" "r \<le> 3"
  shows "sim d s ls \<Longrightarrow> \<forall>c\<in>set cols. 0 \<le> c \<and> c \<le> 3 \<Longrightarrow>
    sim d (fold (\<lambda>c s. moveCell d r c s) cols s)
      (fold (\<lambda>c ls. lineStep d r c ls) cols ls)"
proof (induction cols arbitrary: s ls)
  case Nil
  then show ?case by simp
next
  case (Cons c cols)
  then show ?case using moveCell_sim_rc [OF Cons.prems(1) assms, of c] by simp
qed

lemma fold_rows_sim:
  "sim d s ls \<Longrightarrow> \<forall>r\<in>set rows. 0 \<le> r \<and> r \<le> 3 \<Longrightarrow> \<forall>c\<in>set cols. 0 \<le> c \<and> c \<le> 3 \<Longrightarrow>
    sim d (fold (\<lambda>r s. fold (\<lambda>c s. moveCell d r c s) cols s) rows s)
      (fold (\<lambda>r ls. fold (\<lambda>c ls. lineStep d r c ls) cols ls) rows ls)"
proof (induction rows arbitrary: s ls)
  case Nil
  then show ?case by simp
next
  case (Cons r rows)
  then show ?case using fold_cols_sim [of r d s ls cols] by simp
qed

lemma sim_cong: "sim d s ls \<Longrightarrow> (\<And>k. k < 4 \<Longrightarrow> ls' k = ls k) \<Longrightarrow> sim d s ls'"
  unfolding sim_def by (auto cong: conj_cong)

lemma lines_traversal:
  assumes "k < 4"
  shows "fold (\<lambda>r ls. fold (\<lambda>c ls. lineStep d r c ls)
                 (snd (getTraversalOrder d)) ls) (fst (getTraversalOrder d)) ls k = lrun (ls k)"
proof -
  have "k = 0 \<or> k = 1 \<or> k = 2 \<or> k = 3" using assms by auto
  then show ?thesis
    by (cases d) (auto simp: getTraversalOrder_def lineStep_def lineOf_def idxOf_def lrun_def)
qed

lemma traversal_sim:
  assumes "sim d s ls"
  shows "sim d (fold (\<lambda>r s. fold (\<lambda>c s. moveCell d r c s) (snd (getTraversalOrder d)) s)
                     (fst (getTraversalOrder d)) s)
               (\<lambda>k. lrun (ls k))"
proof -
  have "\<forall>r\<in>set (fst (getTraversalOrder d)). 0 \<le> r \<and> r \<le> 3"
       "\<forall>c\<in>set (snd (getTraversalOrder d)). 0 \<le> c \<and> c \<le> 3"
    by (auto simp: getTraversalOrder_def)
  from fold_rows_sim [OF assms this] show ?thesis
    by (rule sim_cong) (simp add: lines_traversal)
qed

lemma placeTile_onBoard:
  assumes "onBoard t" "wf_grid g"
  shows "placeTile t g = Inr (set_cell g (row t) (col t) (Some (clearFlags t)))"
proof -
  have "nat (col t) < length (g ! nat (row t))"
    using assms by (auto simp: onBoard_def wf_grid_def list_all_length)
  then show ?thesis
    using assms by (auto simp: placeTile_def onBoard_def js_set_def set_cell_def)
qed

lemma find_snoc: "find P (xs @ [x]) = (case find P xs of None \<Rightarrow> (if P x then Some x else None) | Some y \<Rightarrow> Some y)"
  by (induction xs) auto

lemma placeTiles_cells:
  "list_all onBoard ts \<Longrightarrow> wf_grid g \<Longrightarrow>
   \<exists>g'. placeTiles ts g = Inr g' \<and> wf_grid g' \<and>
     (\<forall>r c. 0 \<le> r \<and> r \<le> 3 \<and> 0 \<le> c \<and> c \<le> 3 \<longrightarrow>
        cell g' r c = (case find (\<lambda>t. row t = r \<and> col t = c) (rev ts) of
                         None \<Rightarrow> cell g r c | Some t \<Rightarrow> Some (clearFlags t)))"
proof (induction ts arbitrary: g)
  case Nil
  then show ?case by simp
next
  case (Cons t ts)
  let ?g1 = "set_cell g (row t) (col t) (Some (clearFlags t))"
  from Cons.prems have t: "onBoard t" and ts: "list_all onBoard ts" by auto
  have p: "placeTile t g = Inr ?g1" using placeTile_onBoard [OF t Cons.prems(2)] .
  have w1: "wf_grid ?g1" using Cons.prems(2) by (rule wf_grid_set_cell)
  from Cons.IH [OF ts w1] obtain g' where g': "placeTiles ts ?g1 = Inr g'" "wf_grid g'"
    and c: "\<And>r c. 0 \<le> r \<and> r \<le> 3 \<and> 0 \<le> c \<and> c \<le> 3 \<Longrightarrow>
        cell g' r c = (case find (\<lambda>t. row t = r \<and> col t = c) (rev ts) of
                         None \<Rightarrow> cell ?g1 r c | Some t \<Rightarrow> Some (clearFlags t))"
    by blast
  have "cell g' r c = (case find (\<lambda>t. row t = r \<and> col t = c) (rev (t # ts)) of
                         None \<Rightarrow> cell g r c | Some t \<Rightarrow> Some (clearFlags t))"
    if rc: "0 \<le> r \<and> r \<le> 3 \<and> 0 \<le> c \<and> c \<le> 3" for r c
  proof -
    have "cell ?g1 r c = (if r = row t \<and> c = col t then Some (clearFlags t) else cell g r c)"
      using cell_set_cell [OF Cons.prems(2), of "row t" "col t" r c] t rc by (simp add: onBoard_def)
    then show ?thesis
      using c [OF rc] by (auto simp: find_snoc split: option.splits)
  qed
  with g' p show ?case by simp
qed

lemma find_distinct:
  "distinct (map f xs) \<Longrightarrow> x \<in> set xs \<Longrightarrow> find (\<lambda>t. f t = f x) xs = Some x"
  by (induction xs) (auto simp: image_iff)

lemma find_rev_distinct:
  assumes "distinct (map f xs)"
  shows "find (\<lambda>t. f t = p) (rev xs) = find (\<lambda>t. f t = p) xs"
proof (cases "find (\<lambda>t. f t = p) xs")
  case None
  then have "find (\<lambda>t. f t = p) (rev xs) = None" by (simp add: find_None_iff)
  with None show ?thesis by simp
next
  case (Some x)
  then have x: "x \<in> set xs" "f x = p" by (auto simp: find_Some_iff)
  have "distinct (map f (rev xs))" using assms by (simp add: rev_map [symmetric])
  from find_distinct [OF this, of x] x Some show ?thesis by simp
qed

lemma tileAt_pair: "tileAt ts r c = find (\<lambda>t. (row t, col t) = (r, c)) ts"
  by (simp add: tileAt_def)

lemma placeTiles_empty:
  assumes "list_all onBoard ts" "distinct (map (\<lambda>t. (row t, col t)) ts)"
  shows "\<exists>g. placeTiles ts emptyTileGrid = Inr g \<and> wf_grid g \<and>
     (\<forall>r c. 0 \<le> r \<and> r \<le> 3 \<and> 0 \<le> c \<and> c \<le> 3 \<longrightarrow>
        cell g r c = map_option clearFlags (tileAt ts r c))"
proof -
  have w: "wf_grid emptyTileGrid" by (simp add: wf_grid_def emptyTileGrid_def list_all_length)
  have e: "cell emptyTileGrid r c = None" if "0 \<le> r \<and> r \<le> 3 \<and> 0 \<le> c \<and> c \<le> 3" for r c
  proof -
    have "nat r < 4" "nat c < 4" using that by auto
    then show ?thesis by (simp add: cell_def emptyTileGrid_def)
  qed
  from placeTiles_cells [OF assms(1) w] obtain g where g: "placeTiles ts emptyTileGrid = Inr g" "wf_grid g"
    and c: "\<And>r c. 0 \<le> r \<and> r \<le> 3 \<and> 0 \<le> c \<and> c \<le> 3 \<Longrightarrow>
        cell g r c = (case find (\<lambda>t. row t = r \<and> col t = c) (rev ts) of
                         None \<Rightarrow> cell emptyTileGrid r c | Some t \<Rightarrow> Some (clearFlags t))"
    by blast
  have "cell g r c = map_option clearFlags (tileAt ts r c)"
    if rc: "0 \<le> r \<and> r \<le> 3 \<and> 0 \<le> c \<and> c \<le> 3" for r c
  proof -
    have "find (\<lambda>t. row t = r \<and> col t = c) (rev ts) = tileAt ts r c"
      using find_rev_distinct [OF assms(2), of "(r, c)"] by (simp add: tileAt_def)
    then show ?thesis using c [OF rc] e [OF rc] by (simp split: option.splits)
  qed
  with g show ?thesis by blast
qed

lemma tileAbs_clearFlags: "tileAbs (clearFlags t) = (value_t t, False)"
  by (simp add: tileAbs_def clearFlags_def)

lemma sim_initial:
  assumes w: "wf_grid g"
    and c: "\<And>r c. 0 \<le> r \<and> r \<le> 3 \<and> 0 \<le> c \<and> c \<le> 3 \<Longrightarrow> cell g r c = map_option clearFlags (tileAt ts r c)"
  shows "sim d \<lparr>grid = g, merged_grid = replicate 4 (replicate 4 False), totalScore = 0,
                 anyMoved = False, anyMerged = False, nextTileId = n\<rparr>
               (\<lambda>k. linit (vline d ts k))"
  unfolding sim_def
proof (intro conjI allI impI)
  let ?s = "\<lparr>grid = g, merged_grid = replicate 4 (replicate 4 False), totalScore = 0,
                 anyMoved = False, anyMerged = False, nextTileId = n\<rparr>"
  show "wf_grid (grid ?s)" using w by simp
  show "wf_grid (merged_grid ?s)" by (simp add: wf_grid_def list_all_length)
  show "placed (grid ?s)"
    unfolding placed_def
  proof (intro allI impI)
    fix r c t assume rc: "0 \<le> r \<and> r \<le> 3 \<and> 0 \<le> c \<and> c \<le> 3" and t: "cell (grid ?s) r c = Some t"
    from t c [OF rc] obtain t0 where "tileAt ts r c = Some t0" "t = clearFlags t0" by auto
    then show "row t = r \<and> col t = c"
      by (auto simp: tileAt_def find_Some_iff clearFlags_def)
  qed
  show "totalScore ?s = (\<Sum>k<4. lscore (linit (vline d ts k)))" by (simp add: linit_def)
  show "anyMoved ?s = (\<exists>k<4. lmoved (linit (vline d ts k)))" by (simp add: linit_def)
  show "anyMerged ?s = (\<exists>k<4. lmerged (linit (vline d ts k)))" by (simp add: linit_def)
next
  fix k :: nat assume k: "k < 4"
  show "cells (linit (vline d ts k)) =
        lcells d (grid \<lparr>grid = g, merged_grid = replicate 4 (replicate 4 False), totalScore = 0,
                 anyMoved = False, anyMerged = False, nextTileId = n\<rparr>) k"
  proof (rule nth_equalityI)
    show "length (cells (linit (vline d ts k))) = length (lcells d (grid \<lparr>grid = g, merged_grid = replicate 4 (replicate 4 False), totalScore = 0,
                 anyMoved = False, anyMerged = False, nextTileId = n\<rparr>) k)"
      by (simp add: linit_def vline_def)
  next
    fix i assume "i < length (cells (linit (vline d ts k)))"
    then have i: "i < 4" by (simp add: linit_def vline_def)
    have "cellAt g (pos d k i) = map_option clearFlags (tileAt ts (fst (pos d k i)) (snd (pos d k i)))"
      unfolding cellAt_def using c pos_range [OF k i] by simp
    then show "cells (linit (vline d ts k)) ! i = lcells d (grid \<lparr>grid = g, merged_grid = replicate 4 (replicate 4 False), totalScore = 0,
                 anyMoved = False, anyMerged = False, nextTileId = n\<rparr>) k ! i"
      using i by (simp add: linit_def vline_def lcells_nth option.map_comp o_def tileAbs_clearFlags)
  qed
  show "marks (linit (vline d ts k)) =
        lmarks d (merged_grid \<lparr>grid = g, merged_grid = replicate 4 (replicate 4 False), totalScore = 0,
                 anyMoved = False, anyMerged = False, nextTileId = n\<rparr>) k"
  proof (rule nth_equalityI)
    show "length (marks (linit (vline d ts k))) = length (lmarks d (merged_grid \<lparr>grid = g, merged_grid = replicate 4 (replicate 4 False), totalScore = 0,
                 anyMoved = False, anyMerged = False, nextTileId = n\<rparr>) k)"
      by (simp add: linit_def)
  next
    fix i assume "i < length (marks (linit (vline d ts k)))"
    then have i: "i < 4" by (simp add: linit_def)
    have "nat (fst (pos d k i)) < 4" "nat (snd (pos d k i)) < 4"
      using pos_range [OF k i, of d] by auto
    then show "marks (linit (vline d ts k)) ! i = lmarks d (merged_grid \<lparr>grid = g, merged_grid = replicate 4 (replicate 4 False), totalScore = 0,
                 anyMoved = False, anyMerged = False, nextTileId = n\<rparr>) k ! i"
      using i by (simp add: linit_def lmarks_nth cellAt_def cell_def)
  qed
qed

lemma move_lines:
  assumes "list_all onBoard ts" "distinct (map (\<lambda>t. (row t, col t)) ts)"
  shows "\<exists>g n'. move ts d n =
            Inr (\<lparr>tiles = flatTiles g,
                  score = (\<Sum>k<4. lscore (lrun (linit (vline d ts k)))),
                  moved = (\<exists>k<4. lmoved (lrun (linit (vline d ts k)))),
                  merged = (\<exists>k<4. lmerged (lrun (linit (vline d ts k))))\<rparr>, n') \<and>
          wf_grid g \<and> placed g \<and>
          (\<forall>k<4. lcells d g k = cells (lrun (linit (vline d ts k))))"
proof -
  from placeTiles_empty [OF assms] obtain g0 where g0: "placeTiles ts emptyTileGrid = Inr g0" "wf_grid g0"
    and c: "\<And>r c. 0 \<le> r \<and> r \<le> 3 \<and> 0 \<le> c \<and> c \<le> 3 \<Longrightarrow> cell g0 r c = map_option clearFlags (tileAt ts r c)"
    by blast
  let ?ini = "\<lparr>grid = g0, merged_grid = replicate 4 (replicate 4 False), totalScore = 0,
                 anyMoved = False, anyMerged = False, nextTileId = n\<rparr>"
  let ?s = "fold (\<lambda>r s. fold (\<lambda>c s. moveCell d r c s) (snd (getTraversalOrder d)) s)
                     (fst (getTraversalOrder d)) ?ini"
  have "sim d ?ini (\<lambda>k. linit (vline d ts k))" using sim_initial [OF g0(2) c] .
  from traversal_sim [OF this] have sm: "sim d ?s (\<lambda>k. lrun (linit (vline d ts k)))" .
  have mv: "move ts d n = Inr (\<lparr>tiles = flatTiles (grid ?s), score = totalScore ?s,
                    moved = anyMoved ?s, merged = anyMerged ?s\<rparr>, nextTileId ?s)"
    by (simp add: move_def g0(1) split_def Let_def)
  from sm have "totalScore ?s = (\<Sum>k<4. lscore (lrun (linit (vline d ts k))))"
    "anyMoved ?s = (\<exists>k<4. lmoved (lrun (linit (vline d ts k))))"
    "anyMerged ?s = (\<exists>k<4. lmerged (lrun (linit (vline d ts k))))"
    "wf_grid (grid ?s)" "placed (grid ?s)"
    "\<forall>k<4. lcells d (grid ?s) k = cells (lrun (linit (vline d ts k)))"
    by (simp_all add: sim_def)
  with mv show ?thesis by (intro exI [of _ "grid ?s"] exI [of _ "nextTileId ?s"]) simp
qed

lemma lrun_cells: "cells (lrun (linit [a, b, c, d])) = lineResult [a, b, c, d]"
  by (cases a; cases b; cases c; cases d)
     (simp_all add: lrun_def linit_def lstep_def lineResult_def compact_def Let_def List.map_filter_def
        eval_nat_numeral)

lemma lrun_score: "lscore (lrun (linit [a, b, c, d])) = mergedSum (pairUp (compact [a, b, c, d]))"
  by (cases a; cases b; cases c; cases d)
     (simp_all add: lrun_def linit_def lstep_def mergedSum_def compact_def Let_def List.map_filter_def
        eval_nat_numeral)

lemma lrun_merged: "lmerged (lrun (linit [a, b, c, d])) = list_ex snd (pairUp (compact [a, b, c, d]))"
  by (cases a; cases b; cases c; cases d)
     (simp_all add: lrun_def linit_def lstep_def compact_def Let_def List.map_filter_def
        eval_nat_numeral)

lemma lrun_moved:
  "lmoved (lrun (linit [a, b, c, d])) = (map (map_option fst) (lineResult [a, b, c, d]) \<noteq> [a, b, c, d])"
  by (cases a; cases b; cases c; cases d)
     (simp_all add: lrun_def linit_def lstep_def lineResult_def compact_def Let_def List.map_filter_def
        eval_nat_numeral)

lemma mergeLoop_pairUp:
  "mergeLoop xs acc sc mg =
     (acc @ map (\<lambda>p. Some (fst p)) (pairUp xs), sc + mergedSum (pairUp xs),
      mg \<or> list_ex snd (pairUp xs))"
  by (induction xs acc sc mg rule: mergeLoop.induct) (auto simp: mergedSum_def)

lemma slideRow_pairUp:
  "slideRow r = (map (map_option fst) (lineResult r), mergedSum (pairUp (compact r)),
                 list_ex snd (pairUp (compact r)))"
  by (simp add: slideRow_def mergeLoop_pairUp padRow_def lineResult_def compact_def o_def Let_def)

lemma lrun_slideRow:
  "slideRow [a, b, c, d] =
     (map (map_option fst) (cells (lrun (linit [a, b, c, d]))), lscore (lrun (linit [a, b, c, d])),
      lmerged (lrun (linit [a, b, c, d])))"
  "lmoved (lrun (linit [a, b, c, d])) = (fst (slideRow [a, b, c, d]) \<noteq> [a, b, c, d])"
  by (simp_all add: slideRow_pairUp lrun_cells lrun_score lrun_merged lrun_moved)

lemma in_set_map_filter_id: "t \<in> set (List.map_filter (\<lambda>x. x) xs) \<longleftrightarrow> Some t \<in> set xs"
  by (induction xs) (auto simp: List.map_filter_def)

lemma in_set_flatTiles:
  assumes "wf_grid g"
  shows "t \<in> set (flatTiles g) \<longleftrightarrow> (\<exists>r c. 0 \<le> r \<and> r \<le> 3 \<and> 0 \<le> c \<and> c \<le> 3 \<and> cell g r c = Some t)"
proof
  assume "t \<in> set (flatTiles g)"
  then obtain xs where xs: "xs \<in> set g" "Some t \<in> set xs"
    by (auto simp: flatTiles_def in_set_map_filter_id)
  then obtain r where r: "r < length g" "g ! r = xs" by (auto simp: in_set_conv_nth)
  from xs obtain c where c: "c < length xs" "xs ! c = Some t" by (auto simp: in_set_conv_nth)
  have "length xs = 4" "length g = 4" using assms xs by (auto simp: wf_grid_def list_all_iff)
  with r c have "0 \<le> int r \<and> int r \<le> 3 \<and> 0 \<le> int c \<and> int c \<le> 3 \<and> cell g (int r) (int c) = Some t"
    by (auto simp: cell_def)
  then show "\<exists>r c. 0 \<le> r \<and> r \<le> 3 \<and> 0 \<le> c \<and> c \<le> 3 \<and> cell g r c = Some t" by blast
next
  assume "\<exists>r c. 0 \<le> r \<and> r \<le> 3 \<and> 0 \<le> c \<and> c \<le> 3 \<and> cell g r c = Some t"
  then obtain r c where rc: "0 \<le> r" "r \<le> 3" "0 \<le> c" "c \<le> 3" "cell g r c = Some t" by blast
  have 1: "nat r < length g" using assms rc by (auto simp: wf_grid_def)
  then have 2: "nat c < length (g ! nat r)" using assms rc by (auto simp: wf_grid_def list_all_length)
  have "g ! nat r \<in> set g" using 1 by simp
  moreover have "Some t \<in> set (g ! nat r)" using 2 rc(5) nth_mem [OF 2] by (simp add: cell_def)
  ultimately show "t \<in> set (flatTiles g)"
    by (auto simp: flatTiles_def in_set_map_filter_id)
qed

lemma find_unique:
  assumes "x \<in> set xs" "P x" "\<And>y. y \<in> set xs \<Longrightarrow> P y \<Longrightarrow> y = x"
  shows "find P xs = Some x"
proof (cases "find P xs")
  case None
  then show ?thesis using assms(1,2) by (auto simp: find_None_iff)
next
  case (Some y)
  then have "y \<in> set xs" "P y" by (auto simp: find_Some_iff)
  then have "y = x" by (rule assms(3))
  then show ?thesis using Some by simp
qed

lemma tileAt_flatTiles:
  assumes w: "wf_grid g" and p: "placed g" and rc: "0 \<le> r \<and> r \<le> 3 \<and> 0 \<le> c \<and> c \<le> 3"
  shows "tileAt (flatTiles g) r c = cell g r c"
proof (cases "cell g r c")
  case None
  have "\<not> (\<exists>t\<in>set (flatTiles g). row t = r \<and> col t = c)"
  proof
    assume "\<exists>t\<in>set (flatTiles g). row t = r \<and> col t = c"
    then obtain t where t: "t \<in> set (flatTiles g)" "row t = r" "col t = c" by blast
    from t(1) obtain r' c' where "0 \<le> r' \<and> r' \<le> 3 \<and> 0 \<le> c' \<and> c' \<le> 3" "cell g r' c' = Some t"
      using in_set_flatTiles [OF w] by blast
    with p t None show False by (auto simp: placed_def)
  qed
  then show ?thesis using None by (simp add: tileAt_def find_None_iff)
next
  case (Some t)
  have "find (\<lambda>t. row t = r \<and> col t = c) (flatTiles g) = Some t"
  proof (rule find_unique)
    show "t \<in> set (flatTiles g)" using in_set_flatTiles [OF w] Some rc by blast
    show "row t = r \<and> col t = c" using p Some rc by (auto simp: placed_def)
  next
    fix y assume y: "y \<in> set (flatTiles g)" "row y = r \<and> col y = c"
    from y(1) obtain r' c' where "0 \<le> r' \<and> r' \<le> 3 \<and> 0 \<le> c' \<and> c' \<le> 3" "cell g r' c' = Some y"
      using in_set_flatTiles [OF w] by blast
    with p y(2) Some show "y = t" by (auto simp: placed_def)
  qed
  then show ?thesis using Some by (simp add: tileAt_def)
qed

lemma vline_flatTiles:
  assumes "wf_grid g" "placed g" "k < 4"
  shows "vline d (flatTiles g) k = map (map_option fst) (lcells d g k)"
proof (rule nth_equalityI)
  show "length (vline d (flatTiles g) k) = length (map (map_option fst) (lcells d g k))"
    by (simp add: vline_def)
next
  fix i assume "i < length (vline d (flatTiles g) k)"
  then have i: "i < 4" by (simp add: vline_def)
  have "tileAt (flatTiles g) (fst (pos d k i)) (snd (pos d k i)) = cellAt g (pos d k i)"
    using tileAt_flatTiles [OF assms(1,2) pos_range [OF assms(3) i]] by (simp add: cellAt_def)
  then show "vline d (flatTiles g) k ! i = map (map_option fst) (lcells d g k) ! i"
    using i by (simp add: vline_def lcells_nth option.map_comp o_def tileAbs_def)
qed

lemma upt4: "[0 ..< 4] = [0, 1, 2, 3]"
  by (simp add: upt_rec)

lemma vline_4: "\<exists>a b c e. vline d ts k = [a, b, c, e]"
  by (simp add: vline_def upt4)

lemma sorted_keys:
  "(\<And>i t. i < length xs \<Longrightarrow> xs ! i = Some t \<Longrightarrow> key t = b + int i) \<Longrightarrow>
   sorted_wrt (<) (map key (List.map_filter (\<lambda>x. x) xs)) \<and>
   (\<forall>t\<in>set (List.map_filter (\<lambda>x. x) xs). b \<le> key t)"
proof (induction xs arbitrary: b)
  case Nil
  then show ?case by (simp add: List.map_filter_def)
next
  case (Cons x xs)
  have "key t = (b + 1) + int i" if "i < length xs" "xs ! i = Some t" for i t
    using Cons.prems [of "Suc i" t] that by simp
  from Cons.IH [OF this] have ih: "sorted_wrt (<) (map key (List.map_filter (\<lambda>x. x) xs))"
    "\<forall>t\<in>set (List.map_filter (\<lambda>x. x) xs). b + 1 \<le> key t" by auto
  show ?case
  proof (cases x)
    case None
    then show ?thesis using ih by (force simp: List.map_filter_def)
  next
    case (Some t)
    have "key t = b" using Cons.prems [of 0 t] Some by simp
    then show ?thesis using ih Some by (force simp: List.map_filter_def)
  qed
qed

lemma concat_nth4:
  assumes "wf_grid g" "i < 16"
  shows "concat g ! i = g ! (i div 4) ! (i mod 4)" "length (concat g) = 16"
proof -
  from assms(1) obtain x0 x1 x2 x3 where g: "g = [x0, x1, x2, x3]"
    and len: "length x0 = 4" "length x1 = 4" "length x2 = 4" "length x3 = 4"
    by (auto elim: wf_grid_shape)
  define q where "q = i div 4"
  define r where "r = i mod 4"
  have qr: "q < 4" "r < 4" "i = 4 * q + r" using assms(2) by (auto simp: q_def r_def)
  have "concat [x0, x1, x2, x3] ! (4 * q + r) = [x0, x1, x2, x3] ! q ! r"
    using qr(2) len qr(1) unfolding less4 [of q]
    by (elim disjE) (simp_all add: nth_append)
  then show "concat g ! i = g ! (i div 4) ! (i mod 4)"
    unfolding g q_def r_def by simp
  show "length (concat g) = 16" using len by (simp add: g)
qed

lemma distinct_flatTiles:
  assumes w: "wf_grid g" and p: "placed g"
  shows "distinct (map (\<lambda>t. (row t, col t)) (flatTiles g))"
proof -
  have "4 * row t + col t = 0 + int i" if i: "i < length (concat g)" and t: "concat g ! i = Some t" for i t
  proof -
    have i16: "i < 16" using i concat_nth4(2) [OF w, of 0] by simp
    then have "g ! (i div 4) ! (i mod 4) = Some t" using concat_nth4(1) [OF w i16] t by simp
    then have "cell g (int (i div 4)) (int (i mod 4)) = Some t" by (simp add: cell_def)
    moreover have "0 \<le> int (i div 4) \<and> int (i div 4) \<le> 3 \<and> 0 \<le> int (i mod 4) \<and> int (i mod 4) \<le> 3"
      using i16 by auto
    ultimately have rc: "row t = int (i div 4) \<and> col t = int (i mod 4)"
      using p unfolding placed_def by blast
    have "int i = int (4 * (i div 4) + i mod 4)" by simp
    also have "\<dots> = 4 * int (i div 4) + int (i mod 4)"
      by (simp only: of_nat_add of_nat_mult of_nat_numeral)
    finally show ?thesis using rc by simp
  qed
  from sorted_keys [of "concat g" "\<lambda>t. 4 * row t + col t" 0, OF this]
  have "sorted_wrt (<) (map (\<lambda>t. 4 * row t + col t) (flatTiles g))"
    by (simp add: flatTiles_def)
  then have "distinct (map (\<lambda>t. 4 * row t + col t) (flatTiles g))"
    using strict_sorted_iff by blast
  moreover have "map (\<lambda>t. 4 * row t + col t) (flatTiles g) =
                 map (\<lambda>p. 4 * fst p + snd p) (map (\<lambda>t. (row t, col t)) (flatTiles g))"
    by simp
  ultimately show ?thesis by (metis distinct_map)
qed

lemma move_vlines:
  assumes "list_all onBoard ts" "distinct (map (\<lambda>t. (row t, col t)) ts)"
  shows "\<exists>res n'. move ts d n = Inr (res, n') \<and>
          list_all onBoard (tiles res) \<and> distinct (map (\<lambda>t. (row t, col t)) (tiles res)) \<and>
          (\<forall>k<4. vline d (tiles res) k = fst (slideRow (vline d ts k))) \<and>
          score res = (\<Sum>k<4. fst (snd (slideRow (vline d ts k)))) \<and>
          moved res = (\<exists>k<4. fst (slideRow (vline d ts k)) \<noteq> vline d ts k) \<and>
          merged res = (\<exists>k<4. snd (snd (slideRow (vline d ts k))))"
proof -
  have sl: "slideRow (vline d ts k) =
     (map (map_option fst) (cells (lrun (linit (vline d ts k)))), lscore (lrun (linit (vline d ts k))),
      lmerged (lrun (linit (vline d ts k))))"
    "lmoved (lrun (linit (vline d ts k))) = (fst (slideRow (vline d ts k)) \<noteq> vline d ts k)" for k
  proof -
    obtain a b c e where v: "vline d ts k = [a, b, c, e]" using vline_4 by blast
    show "slideRow (vline d ts k) =
     (map (map_option fst) (cells (lrun (linit (vline d ts k)))), lscore (lrun (linit (vline d ts k))),
      lmerged (lrun (linit (vline d ts k))))"
      unfolding v by (rule lrun_slideRow(1))
    show "lmoved (lrun (linit (vline d ts k))) = (fst (slideRow (vline d ts k)) \<noteq> vline d ts k)"
      unfolding v by (rule lrun_slideRow(2))
  qed
  from move_lines [OF assms, of d n] obtain g n' where
    mv: "move ts d n =
            Inr (\<lparr>tiles = flatTiles g,
                  score = (\<Sum>k<4. lscore (lrun (linit (vline d ts k)))),
                  moved = (\<exists>k<4. lmoved (lrun (linit (vline d ts k)))),
                  merged = (\<exists>k<4. lmerged (lrun (linit (vline d ts k))))\<rparr>, n')"
    and g: "wf_grid g" "placed g" "\<forall>k<4. lcells d g k = cells (lrun (linit (vline d ts k)))"
    by blast
  have ob: "list_all onBoard (flatTiles g)"
    unfolding list_all_iff
  proof
    fix t assume "t \<in> set (flatTiles g)"
    then obtain r c where "0 \<le> r \<and> r \<le> 3 \<and> 0 \<le> c \<and> c \<le> 3" "cell g r c = Some t"
      using in_set_flatTiles [OF g(1)] by blast
    with g(2) show "onBoard t" by (auto simp: placed_def onBoard_def)
  qed
  have di: "distinct (map (\<lambda>t. (row t, col t)) (flatTiles g))"
    using distinct_flatTiles [OF g(1,2)] .
  have vl: "\<forall>k<4. vline d (flatTiles g) k = fst (slideRow (vline d ts k))"
    using vline_flatTiles [OF g(1,2)] g(3) by (simp add: sl(1))
  show ?thesis
    unfolding mv using ob di vl by (simp add: sl)
qed

lemma length_pairUp: "length (pairUp xs) \<le> length xs"
  by (induction xs rule: pairUp.induct) auto

lemma length_compact: "length (compact r) \<le> length r"
  by (simp add: compact_def List.map_filter_def)

lemma length_slideRow: "length r = 4 \<Longrightarrow> length (fst (slideRow r)) = 4"
  using length_pairUp [of "compact r"] length_compact [of r]
  by (simp add: slideRow_pairUp lineResult_def)

lemma list4: "length xs = 4 \<Longrightarrow> \<exists>a b c d. xs = [a, b, c, d]"
  by (auto simp: length_Suc_conv eval_nat_numeral)

lemma slideRow4: "\<exists>x0 x1 x2 x3. fst (slideRow [a, b, c, d]) = [x0, x1, x2, x3]"
  using length_slideRow [of "[a, b, c, d]"] list4 by auto

lemma slideRows_explicit:
  "slideRows ([r0, r1, r2, r3], sc, mg) =
     ([fst (slideRow r0), fst (slideRow r1), fst (slideRow r2), fst (slideRow r3)],
      sc + fst (snd (slideRow r0)) + fst (snd (slideRow r1)) + fst (snd (slideRow r2)) + fst (snd (slideRow r3)),
      (snd (snd (slideRow r3)) \<or> snd (snd (slideRow r2)) \<or> snd (snd (slideRow r1)) \<or> snd (snd (slideRow r0)) \<or> mg))"
  by (simp add: slideRows_def upt4 split_def Let_def)

lemma rotateGrid90_explicit:
  "rotateGrid90 [[a0, a1, a2, a3], [b0, b1, b2, b3], [c0, c1, c2, c3], [d0, d1, d2, d3]] =
     [[d0, c0, b0, a0], [d1, c1, b1, a1], [d2, c2, b2, a2], [d3, c3, b3, a3]]"
  by (simp add: rotateGrid90_def upt4 createEmptyGrid_def eval_nat_numeral)

lemma rotateGrid270_explicit:
  "rotateGrid270 [[a0, a1, a2, a3], [b0, b1, b2, b3], [c0, c1, c2, c3], [d0, d1, d2, d3]] =
     [[a3, b3, c3, d3], [a2, b2, c2, d2], [a1, b1, c1, d1], [a0, b0, c0, d0]]"
  by (simp add: rotateGrid270_def upt4 createEmptyGrid_def eval_nat_numeral)

lemma rotateGrid180_explicit:
  "rotateGrid180 [[a0, a1, a2, a3], [b0, b1, b2, b3], [c0, c1, c2, c3], [d0, d1, d2, d3]] =
     [[d3, d2, d1, d0], [c3, c2, c1, c0], [b3, b2, b1, b0], [a3, a2, a1, a0]]"
  by (simp add: rotateGrid180_def upt4 createEmptyGrid_def eval_nat_numeral)

lemma gridsEqual_explicit:
  "gridsEqual [[a0, a1, a2, a3], [b0, b1, b2, b3], [c0, c1, c2, c3], [d0, d1, d2, d3]]
              [[a0', a1', a2', a3'], [b0', b1', b2', b3'], [c0', c1', c2', c3'], [d0', d1', d2', d3']] =
   ([[a0, a1, a2, a3], [b0, b1, b2, b3], [c0, c1, c2, c3], [d0, d1, d2, d3]] =
    [[a0', a1', a2', a3'], [b0', b1', b2', b3'], [c0', c1', c2', c3'], [d0', d1', d2', d3']])"
  by (simp add: gridsEqual_def upt4)

lemma gline_explicit:
  "gline Left [[a0, a1, a2, a3], [b0, b1, b2, b3], [c0, c1, c2, c3], [d0, d1, d2, d3]] k =
     (if k = 0 then [a0, a1, a2, a3] else if k = 1 then [b0, b1, b2, b3]
      else if k = 2 then [c0, c1, c2, c3] else if k = 3 then [d0, d1, d2, d3]
      else gline Left [[a0, a1, a2, a3], [b0, b1, b2, b3], [c0, c1, c2, c3], [d0, d1, d2, d3]] k)"
  "gline Right [[a0, a1, a2, a3], [b0, b1, b2, b3], [c0, c1, c2, c3], [d0, d1, d2, d3]] k =
     (if k = 0 then [a3, a2, a1, a0] else if k = 1 then [b3, b2, b1, b0]
      else if k = 2 then [c3, c2, c1, c0] else if k = 3 then [d3, d2, d1, d0]
      else gline Right [[a0, a1, a2, a3], [b0, b1, b2, b3], [c0, c1, c2, c3], [d0, d1, d2, d3]] k)"
  "gline Up [[a0, a1, a2, a3], [b0, b1, b2, b3], [c0, c1, c2, c3], [d0, d1, d2, d3]] k =
     (if k = 0 then [a0, b0, c0, d0] else if k = 1 then [a1, b1, c1, d1]
      else if k = 2 then [a2, b2, c2, d2] else if k = 3 then [a3, b3, c3, d3]
      else gline Up [[a0, a1, a2, a3], [b0, b1, b2, b3], [c0, c1, c2, c3], [d0, d1, d2, d3]] k)"
  "gline Down [[a0, a1, a2, a3], [b0, b1, b2, b3], [c0, c1, c2, c3], [d0, d1, d2, d3]] k =
     (if k = 0 then [d0, c0, b0, a0] else if k = 1 then [d1, c1, b1, a1]
      else if k = 2 then [d2, c2, b2, a2] else if k = 3 then [d3, c3, b3, a3]
      else gline Down [[a0, a1, a2, a3], [b0, b1, b2, b3], [c0, c1, c2, c3], [d0, d1, d2, d3]] k)"
  by (auto simp: gline_def upt4 cellAt_def cell_def pos_def)

lemma move_grid_lines:
  assumes "wf_grid g"
  shows "wf_grid (grid_of (move_grid g d)) \<and>
         (\<forall>k<4. gline d (grid_of (move_grid g d)) k = fst (slideRow (gline d g k))) \<and>
         score_of (move_grid g d) = (\<Sum>k<4. fst (snd (slideRow (gline d g k)))) \<and>
         merged_of (move_grid g d) = (\<exists>k<4. snd (snd (slideRow (gline d g k)))) \<and>
         moved_of (move_grid g d) = (g \<noteq> grid_of (move_grid g d))"
proof -
  from assms obtain a0 a1 a2 a3 b0 b1 b2 b3 c0 c1 c2 c3 d0 d1 d2 d3 where
    g: "g = [[a0, a1, a2, a3], [b0, b1, b2, b3], [c0, c1, c2, c3], [d0, d1, d2, d3]]"
    by (rule wf_grid_shape)
  obtain w0 w1 w2 w3 x0 x1 x2 x3 y0 y1 y2 y3 z0 z1 z2 z3 where
    sl: "fst (slideRow (gline d g 0)) = [w0, w1, w2, w3]" "fst (slideRow (gline d g 1)) = [x0, x1, x2, x3]"
        "fst (slideRow (gline d g 2)) = [y0, y1, y2, y3]" "fst (slideRow (gline d g 3)) = [z0, z1, z2, z3]"
    using slideRow4 unfolding g by (cases d; simp add: gline_explicit; metis)
  show ?thesis
  proof (cases d)
    case Up
    show ?thesis
      using sl unfolding g Up
      by (simp add: move_grid_def Let_def rotateGrid270_explicit rotateGrid90_explicit slideRows_explicit
            gline_explicit all_less4 ex_less4 sum_less4 gridsEqual_explicit wf_grid_def disj_ac)
  next
    case Down
    show ?thesis
      using sl unfolding g Down
      by (simp add: move_grid_def Let_def rotateGrid270_explicit rotateGrid90_explicit slideRows_explicit
            gline_explicit all_less4 ex_less4 sum_less4 gridsEqual_explicit wf_grid_def disj_ac)
  next
    case Left
    show ?thesis
      using sl unfolding g Left
      by (simp add: move_grid_def Let_def slideRows_explicit
            gline_explicit all_less4 ex_less4 sum_less4 gridsEqual_explicit wf_grid_def disj_ac)
  next
    case Right
    show ?thesis
      using sl unfolding g Right
      by (simp add: move_grid_def Let_def rotateGrid180_explicit slideRows_explicit
            gline_explicit all_less4 ex_less4 sum_less4 gridsEqual_explicit wf_grid_def disj_ac)
  qed
qed

lemma grid_eq_glines:
  assumes "wf_grid g" "wf_grid g'" "\<forall>k<4. gline d g k = gline d g' k"
  shows "g = g'"
proof -
  from assms(1) obtain a0 a1 a2 a3 b0 b1 b2 b3 c0 c1 c2 c3 d0 d1 d2 d3 where
    g: "g = [[a0, a1, a2, a3], [b0, b1, b2, b3], [c0, c1, c2, c3], [d0, d1, d2, d3]]"
    by (rule wf_grid_shape)
  from assms(2) obtain a0' a1' a2' a3' b0' b1' b2' b3' c0' c1' c2' c3' d0' d1' d2' d3' where
    g': "g' = [[a0', a1', a2', a3'], [b0', b1', b2', b3'], [c0', c1', c2', c3'], [d0', d1', d2', d3']]"
    by (rule wf_grid_shape)
  show ?thesis
    using assms(3) unfolding g g' by (cases d) (simp_all add: all_less4 gline_explicit)
qed

subsection \<open>Spawning on a full board\<close>

lemma getEmptyCells_full: "fullBoard ts \<Longrightarrow> getEmptyCells ts = []"
  by (simp add: fullBoard_def getEmptyCells_def list_ex_iff image_iff)

lemma getEmptyCells_grid_full: "wf_grid g \<Longrightarrow> fullGrid g \<Longrightarrow> getEmptyCells_grid g = []"
  by (erule wf_grid_shape) (auto simp: fullGrid_def getEmptyCells_grid_def less_Suc_eq eval_nat_numeral)

text \<open>
  C7: on a board whose sixteen cells are all occupied, \<open>spawnTile\<close> returns its input
  (and the tile counter) unchanged, in both engines, whatever the random numbers are. The
  function has no failing branch: with no empty cell it returns before it draws a cell.
\<close>

theorem spawnTile_full_board:
  "(fullBoard ts \<longrightarrow> spawnTile ts u1 u2 next_id = (ts, next_id)) \<and>
   (wf_grid g \<and> fullGrid g \<longrightarrow> spawnTile_grid g u1 u2 = g)"
  by (simp add: spawnTile_def spawnTile_grid_def getEmptyCells_full getEmptyCells_grid_full)

theorem spawnTile_full_board_witness:
  "fullBoard example_full \<and> spawnTile example_full (1 / 2) (1 / 2) 17 = (example_full, 17) \<and>
   wf_grid example_full_grid \<and> fullGrid example_full_grid \<and>
   spawnTile_grid example_full_grid (1 / 2) (1 / 2) = example_full_grid"
proof -
  have 1: "fullBoard example_full" by code_simp
  have 2: "wf_grid example_full_grid \<and> fullGrid example_full_grid" by code_simp
  show ?thesis
    using 1 2 spawnTile_full_board [of example_full "1 / 2" "1 / 2" 17 example_full_grid]
    by simp
qed

subsection \<open>The two engines agree\<close>

lemma cell_valuesOf:
  assumes "0 \<le> r \<and> r \<le> 3 \<and> 0 \<le> c \<and> c \<le> 3"
  shows "cell (valuesOf ts) r c = map_option value_t (tileAt ts r c)"
proof -
  have "r = 0 \<or> r = 1 \<or> r = 2 \<or> r = 3" "c = 0 \<or> c = 1 \<or> c = 2 \<or> c = 3"
    using assms by auto
  then show ?thesis by (auto simp: valuesOf_def cell_def)
qed

lemma wf_grid_valuesOf: "wf_grid (valuesOf ts)"
  by (simp add: wf_grid_def valuesOf_def)

lemma gline_valuesOf:
  assumes "k < 4"
  shows "gline d (valuesOf ts) k = vline d ts k"
proof -
  have "cellAt (valuesOf ts) (pos d k i) = map_option value_t (tileAt ts (fst (pos d k i)) (snd (pos d k i)))"
    if "i \<in> set [0 ..< 4]" for i
    using that cell_valuesOf [OF pos_range [OF assms, of i d]] by (simp add: cellAt_def)
  then show ?thesis unfolding gline_def vline_def by (intro map_cong) auto
qed

lemma well_formed_board:
  "well_formed ts \<Longrightarrow> list_all onBoard ts \<and> distinct (map (\<lambda>t. (row t, col t)) ts)"
  by (simp add: well_formed_def)

lemma move_refines:
  assumes "list_all onBoard ts" "distinct (map (\<lambda>t. (row t, col t)) ts)"
  shows "\<exists>res n'. move ts d n = Inr (res, n') \<and>
           list_all onBoard (tiles res) \<and> distinct (map (\<lambda>t. (row t, col t)) (tiles res)) \<and>
           valuesOf (tiles res) = grid_of (move_grid (valuesOf ts) d) \<and>
           score res = score_of (move_grid (valuesOf ts) d) \<and>
           moved res = moved_of (move_grid (valuesOf ts) d) \<and>
           merged res = merged_of (move_grid (valuesOf ts) d)"
proof -
  let ?G = "move_grid (valuesOf ts) d"
  from move_vlines [OF assms, of d n] obtain res n' where
    mv: "move ts d n = Inr (res, n')"
    and wf: "list_all onBoard (tiles res)" "distinct (map (\<lambda>t. (row t, col t)) (tiles res))"
    and vl: "\<forall>k<4. vline d (tiles res) k = fst (slideRow (vline d ts k))"
    and sc: "score res = (\<Sum>k<4. fst (snd (slideRow (vline d ts k))))"
    and mo: "moved res = (\<exists>k<4. fst (slideRow (vline d ts k)) \<noteq> vline d ts k)"
    and me: "merged res = (\<exists>k<4. snd (snd (slideRow (vline d ts k))))"
    by blast
  from move_grid_lines [OF wf_grid_valuesOf, of ts d] have
    gw: "wf_grid (grid_of ?G)"
    and gl: "\<forall>k<4. gline d (grid_of ?G) k = fst (slideRow (vline d ts k))"
    and gs: "score_of ?G = (\<Sum>k<4. fst (snd (slideRow (vline d ts k))))"
    and gm: "merged_of ?G = (\<exists>k<4. snd (snd (slideRow (vline d ts k))))"
    and gv: "moved_of ?G = (valuesOf ts \<noteq> grid_of ?G)"
    by (simp_all add: gline_valuesOf cong: conj_cong)
  have eq: "valuesOf (tiles res) = grid_of ?G"
    by (rule grid_eq_glines [OF wf_grid_valuesOf gw, of d]) (simp add: gline_valuesOf vl gl)
  have "(valuesOf ts \<noteq> grid_of ?G) = (\<exists>k<4. fst (slideRow (vline d ts k)) \<noteq> vline d ts k)"
  proof
    assume ne: "valuesOf ts \<noteq> grid_of ?G"
    show "\<exists>k<4. fst (slideRow (vline d ts k)) \<noteq> vline d ts k"
    proof (rule ccontr)
      assume "\<not> (\<exists>k<4. fst (slideRow (vline d ts k)) \<noteq> vline d ts k)"
      then have "\<forall>k<4. gline d (valuesOf ts) k = gline d (grid_of ?G) k"
        by (simp add: gline_valuesOf gl)
      from grid_eq_glines [OF wf_grid_valuesOf gw this] ne show False by simp
    qed
  next
    assume "\<exists>k<4. fst (slideRow (vline d ts k)) \<noteq> vline d ts k"
    then obtain k where k: "k < 4" "fst (slideRow (vline d ts k)) \<noteq> vline d ts k" by blast
    then have "gline d (grid_of ?G) k \<noteq> gline d (valuesOf ts) k"
      using gl by (simp add: gline_valuesOf)
    then show "valuesOf ts \<noteq> grid_of ?G" by auto
  qed
  with mv wf eq sc mo me gs gm gv show ?thesis by simp
qed

text \<open>
  C1: on every well-formed board whose values are at most \<open>2 ^ 48\<close> and for every
  direction, the move of the tile engine returns a result, and that result is the one of
  the grid engine on the board with the identities discarded: the same value at every cell,
  the same score, the same moved flag and the same merged flag. (The bound keeps the
  numbers of both engines in the range where JavaScript adds and doubles exactly; beyond
  it the two engines round their scores in different orders.)
\<close>

theorem move_engines_agree:
  assumes "well_formed ts" "safeValues ts"
  shows "\<exists>res n'. move ts d n = Inr (res, n') \<and>
           valuesOf (tiles res) = grid_of (move_grid (valuesOf ts) d) \<and>
           score res = score_of (move_grid (valuesOf ts) d) \<and>
           moved res = moved_of (move_grid (valuesOf ts) d) \<and>
           merged res = merged_of (move_grid (valuesOf ts) d)"
  using move_refines [of ts d n] well_formed_board [OF assms(1)] by blast

theorem move_engines_agree_witness:
  "well_formed example_row \<and> safeValues example_row \<and>
   (\<exists>res n'. move example_row Left 4 = Inr (res, n') \<and>
           valuesOf (tiles res) = grid_of (move_grid (valuesOf example_row) Left) \<and>
           score res = score_of (move_grid (valuesOf example_row) Left) \<and>
           moved res = moved_of (move_grid (valuesOf example_row) Left) \<and>
           merged res = merged_of (move_grid (valuesOf example_row) Left))"
proof -
  have w: "well_formed example_row" by code_simp
  have v: "safeValues example_row" by code_simp
  from move_engines_agree [OF w v, of Left 4] w v show ?thesis by blast
qed

subsection \<open>Two moves in the same direction\<close>

lemma pairUp_unmerged:
  "\<not> list_ex snd (pairUp xs) \<Longrightarrow> pairUp xs = map (\<lambda>x. (x, False)) xs"
  by (induction xs rule: pairUp.induct) (auto split: if_splits)

lemma pairUp_merged_shorter:
  "list_ex snd (pairUp xs) \<Longrightarrow> length (pairUp xs) < length xs"
  using length_pairUp
  by (induction xs rule: pairUp.induct) (auto split: if_splits simp: less_Suc_eq_le le_SucI)

lemma sum_pairUp: "sum_list (map fst (pairUp xs)) = sum_list xs"
  by (induction xs rule: pairUp.induct) auto

lemma compact_Some_pad: "compact (map Some xs @ replicate n None) = xs"
  by (induction xs) (auto simp: compact_def List.map_filter_def)

lemma compact_Some_pad': "compact (map (Some \<circ> f) xs @ replicate n None) = map f xs"
  using compact_Some_pad [of "map f xs" n] by simp

lemma mergedSum_unmerged: "\<not> list_ex snd ps \<Longrightarrow> mergedSum ps = 0"
  by (simp add: mergedSum_def list_ex_iff filter_empty_conv [THEN iffD2])

lemma compact_lineResult:
  "compact (map (map_option fst) (lineResult r)) = map fst (pairUp (compact r))"
proof -
  have "map (map_option fst) (lineResult r) =
        map Some (map fst (pairUp (compact r))) @ replicate (4 - length (pairUp (compact r))) None"
    by (simp add: lineResult_def o_def)
  then show ?thesis by (simp only: compact_Some_pad)
qed

lemma slideRow_fixed:
  assumes "fst (slideRow r) = r"
  shows "slideRow r = (r, 0, False)"
proof -
  have "compact r = map fst (pairUp (compact r))"
    using assms compact_lineResult [of r] by (simp add: slideRow_pairUp)
  then have "length (pairUp (compact r)) = length (compact r)"
    by (metis length_map)
  then have nm: "\<not> list_ex snd (pairUp (compact r))"
    using pairUp_merged_shorter [of "compact r"] by auto
  then have "mergedSum (pairUp (compact r)) = 0"
    by (rule mergedSum_unmerged)
  with nm assms show ?thesis by (simp add: slideRow_pairUp)
qed

lemma slideRow_merged_changes: "snd (snd (slideRow r)) \<Longrightarrow> fst (slideRow r) \<noteq> r"
  using slideRow_fixed [of r] by auto

lemma slideRow_compacted:
  assumes "length ys \<le> 4" "\<not> list_ex snd (pairUp ys)"
  shows "fst (slideRow (map Some ys @ replicate (4 - length ys) None)) =
         map Some ys @ replicate (4 - length ys) None"
proof -
  have "pairUp ys = map (\<lambda>x. (x, False)) ys" using assms(2) by (rule pairUp_unmerged)
  then show ?thesis
    by (simp add: slideRow_pairUp lineResult_def compact_Some_pad o_def)
qed

lemma slideRow_twice:
  assumes "length r = 4"
  shows "(fst (slideRow (fst (slideRow r))) \<noteq> fst (slideRow r)) = snd (snd (slideRow (fst (slideRow r))))"
    and "\<not> snd (snd (slideRow r)) \<Longrightarrow> fst (slideRow (fst (slideRow r))) = fst (slideRow r)"
proof -
  let ?ys = "map fst (pairUp (compact r))"
  have len: "length ?ys \<le> 4"
    using length_pairUp [of "compact r"] length_compact [of r] assms by simp
  have x: "fst (slideRow r) = map Some ?ys @ replicate (4 - length ?ys) None"
    by (simp add: slideRow_pairUp lineResult_def o_def)
  have mg: "snd (snd (slideRow (fst (slideRow r)))) = list_ex snd (pairUp ?ys)"
    unfolding x by (simp add: slideRow_pairUp compact_Some_pad')
  show "(fst (slideRow (fst (slideRow r))) \<noteq> fst (slideRow r)) = snd (snd (slideRow (fst (slideRow r))))"
  proof (cases "list_ex snd (pairUp ?ys)")
    case True
    then show ?thesis using mg slideRow_merged_changes [of "fst (slideRow r)"] by simp
  next
    case False
    then show ?thesis using mg slideRow_compacted [OF len False] x by simp
  qed
  show "fst (slideRow (fst (slideRow r))) = fst (slideRow r)" if "\<not> snd (snd (slideRow r))"
  proof -
    from that have "\<not> list_ex snd (pairUp (compact r))" by (simp add: slideRow_pairUp)
    then have "?ys = compact r" "\<not> list_ex snd (pairUp ?ys)"
      using pairUp_unmerged [of "compact r"] by (simp_all add: o_def)
    then show ?thesis using slideRow_compacted [OF len] x by simp
  qed
qed

lemma length_vline [simp]: "length (vline d ts k) = 4"
  by (simp add: vline_def)

lemma board_move_vlines:
  assumes "board ts"
  shows "\<exists>res n'. move ts d n = Inr (res, n') \<and> board (tiles res) \<and>
          (\<forall>k<4. vline d (tiles res) k = fst (slideRow (vline d ts k))) \<and>
          score res = (\<Sum>k<4. fst (snd (slideRow (vline d ts k)))) \<and>
          moved res = (\<exists>k<4. fst (slideRow (vline d ts k)) \<noteq> vline d ts k) \<and>
          merged res = (\<exists>k<4. snd (snd (slideRow (vline d ts k))))"
  using move_vlines [of ts d n] assms unfolding board_def by blast

lemma well_formed_imp_board: "well_formed ts \<Longrightarrow> board ts"
  by (simp add: well_formed_def board_def)

text \<open>
  C2, as stated, fails: the first move of the row 2, 2, 4 to the left gives 4, 4, and the
  second move to the left merges these two into 8, so it moves.
\<close>

theorem second_move_counterexample:
  "well_formed example_224 \<and>
   move example_224 Left 4 =
     Inr (\<lparr>tiles = [\<lparr>id_t = 4, value_t = 4, row = 0, col = 0, isNew = Some False, isMerged = Some True\<rparr>,
                    \<lparr>id_t = 3, value_t = 4, row = 0, col = 1, isNew = Some False, isMerged = Some False\<rparr>],
           score = 4, moved = True, merged = True\<rparr>, 5) \<and>
   move [\<lparr>id_t = 4, value_t = 4, row = 0, col = 0, isNew = Some False, isMerged = Some True\<rparr>,
         \<lparr>id_t = 3, value_t = 4, row = 0, col = 1, isNew = Some False, isMerged = Some False\<rparr>] Left 5 =
     Inr (\<lparr>tiles = [\<lparr>id_t = 5, value_t = 8, row = 0, col = 0, isNew = Some False, isMerged = Some True\<rparr>],
           score = 8, moved = True, merged = True\<rparr>, 6)"
  by code_simp

text \<open>
  C2, amended: on every board with one tile per cell, the second of two moves in the same
  direction with no spawn between them moves a tile only by merging (its moved flag equals
  its merged flag), and it moves nothing when the first move merged nothing.
\<close>

theorem second_move_only_merges:
  assumes "board ts"
  shows "\<exists>r1 n1 r2 n2. move ts d n = Inr (r1, n1) \<and> move (tiles r1) d n1 = Inr (r2, n2) \<and>
           moved r2 = merged r2 \<and> (\<not> merged r1 \<longrightarrow> \<not> moved r2)"
proof -
  from board_move_vlines [OF assms, of d n] obtain r1 n1 where
    m1: "move ts d n = Inr (r1, n1)" and b1: "board (tiles r1)"
    and v1: "\<forall>k<4. vline d (tiles r1) k = fst (slideRow (vline d ts k))"
    and g1: "merged r1 = (\<exists>k<4. snd (snd (slideRow (vline d ts k))))"
    by blast
  from board_move_vlines [OF b1, of d n1] obtain r2 n2 where
    m2: "move (tiles r1) d n1 = Inr (r2, n2)"
    and mo: "moved r2 = (\<exists>k<4. fst (slideRow (vline d (tiles r1) k)) \<noteq> vline d (tiles r1) k)"
    and mg: "merged r2 = (\<exists>k<4. snd (snd (slideRow (vline d (tiles r1) k))))"
    by blast
  have eq: "(fst (slideRow (vline d (tiles r1) k)) \<noteq> vline d (tiles r1) k) =
            snd (snd (slideRow (vline d (tiles r1) k)))" if "k < 4" for k
    using v1 that slideRow_twice(1) [of "vline d ts k"] by simp
  have "moved r2 = merged r2"
    unfolding mo mg by (simp add: eq cong: conj_cong)
  moreover have "\<not> moved r2" if "\<not> merged r1"
  proof -
    have "fst (slideRow (vline d (tiles r1) k)) = vline d (tiles r1) k" if "k < 4" for k
      using v1 that g1 \<open>\<not> merged r1\<close> slideRow_twice(2) [of "vline d ts k"] by simp
    then show ?thesis unfolding mo by simp
  qed
  ultimately show ?thesis using m1 m2 by blast
qed

theorem second_move_only_merges_witness:
  "board example_224 \<and>
   (\<exists>r1 n1 r2 n2. move example_224 Left 4 = Inr (r1, n1) \<and> move (tiles r1) Left n1 = Inr (r2, n2) \<and>
           moved r2 = merged r2 \<and> (\<not> merged r1 \<longrightarrow> \<not> moved r2))"
proof -
  have b: "board example_224" by code_simp
  from second_move_only_merges [OF b, of Left 4] b show ?thesis by blast
qed

subsection \<open>The moved flag\<close>

lemma moveCell_moved_mono: "anyMoved s \<Longrightarrow> anyMoved (moveCell d r c s)"
  by (simp add: moveCell_def Let_def split_def createTile_def split: option.splits)

lemma moveCell_unmoved: "\<not> anyMoved (moveCell d r c s) \<Longrightarrow> moveCell d r c s = s"
proof (rule ccontr)
  assume a: "\<not> anyMoved (moveCell d r c s)" and n: "moveCell d r c s \<noteq> s"
  from n have "anyMoved (moveCell d r c s)"
    by (auto simp: moveCell_def Let_def split_def createTile_def split: option.splits if_splits)
  with a show False by simp
qed

lemma fold_cols_unmoved:
  "\<not> anyMoved (fold (\<lambda>c s. moveCell d r c s) cols s) \<Longrightarrow> fold (\<lambda>c s. moveCell d r c s) cols s = s"
proof (induction cols arbitrary: s)
  case Nil
  then show ?case by simp
next
  case (Cons c cols)
  from Cons.prems have 1: "\<not> anyMoved (fold (\<lambda>c s. moveCell d r c s) cols (moveCell d r c s))" by simp
  from Cons.IH [OF 1] have 2: "fold (\<lambda>c s. moveCell d r c s) cols (moveCell d r c s) = moveCell d r c s" .
  with 1 have "\<not> anyMoved (moveCell d r c s)" by simp
  then show ?case using 2 moveCell_unmoved by simp
qed

lemma fold_rows_unmoved:
  "\<not> anyMoved (fold (\<lambda>r s. fold (\<lambda>c s. moveCell d r c s) cols s) rows s) \<Longrightarrow>
   fold (\<lambda>r s. fold (\<lambda>c s. moveCell d r c s) cols s) rows s = s"
proof (induction rows arbitrary: s)
  case Nil
  then show ?case by simp
next
  case (Cons r rows)
  let ?s1 = "fold (\<lambda>c s. moveCell d r c s) cols s"
  from Cons.prems have 1: "\<not> anyMoved (fold (\<lambda>r s. fold (\<lambda>c s. moveCell d r c s) cols s) rows ?s1)" by simp
  from Cons.IH [OF 1] have 2: "fold (\<lambda>r s. fold (\<lambda>c s. moveCell d r c s) cols s) rows ?s1 = ?s1" .
  with 1 have "\<not> anyMoved ?s1" by simp
  then show ?case using 2 fold_cols_unmoved by simp
qed

lemma move_unmoved:
  assumes "board ts" "move ts d n = Inr (res, n')" "\<not> moved res"
    and rc: "0 \<le> r \<and> r \<le> 3 \<and> 0 \<le> c \<and> c \<le> 3"
  shows "tileAt (tiles res) r c = map_option clearFlags (tileAt ts r c)"
proof -
  from assms(1) have b: "list_all onBoard ts" "distinct (map (\<lambda>t. (row t, col t)) ts)"
    by (simp_all add: board_def)
  from placeTiles_empty [OF b] obtain g0 where g0: "placeTiles ts emptyTileGrid = Inr g0" "wf_grid g0"
    and c: "\<And>r c. 0 \<le> r \<and> r \<le> 3 \<and> 0 \<le> c \<and> c \<le> 3 \<Longrightarrow> cell g0 r c = map_option clearFlags (tileAt ts r c)"
    by blast
  let ?ini = "\<lparr>grid = g0, merged_grid = replicate 4 (replicate 4 False), totalScore = 0,
                 anyMoved = False, anyMerged = False, nextTileId = n\<rparr>"
  let ?fin = "fold (\<lambda>r s. fold (\<lambda>c s. moveCell d r c s) (snd (getTraversalOrder d)) s)
                     (fst (getTraversalOrder d)) ?ini"
  have mv: "move ts d n = Inr (\<lparr>tiles = flatTiles (grid ?fin), score = totalScore ?fin,
                    moved = anyMoved ?fin, merged = anyMerged ?fin\<rparr>, nextTileId ?fin)"
    by (simp add: move_def g0(1) split_def Let_def)
  with assms(2,3) have "\<not> anyMoved ?fin" by auto
  then have "?fin = ?ini" by (rule fold_rows_unmoved)
  with mv assms(2) have t: "tiles res = flatTiles g0" by auto
  have "placed g0" using sim_initial [OF g0(2) c, of d n] by (simp add: sim_def)
  from tileAt_flatTiles [OF g0(2) this rc] c [OF rc] t show ?thesis by simp
qed

lemma move_grid_unmoved:
  assumes "wf_grid g" "grid_of (move_grid g d) = g"
  shows "score_of (move_grid g d) = 0 \<and> \<not> merged_of (move_grid g d)"
proof -
  from move_grid_lines [OF assms(1), of d] assms(2) have
    l: "\<forall>k<4. gline d g k = fst (slideRow (gline d g k))"
    and s: "score_of (move_grid g d) = (\<Sum>k<4. fst (snd (slideRow (gline d g k))))"
    and m: "merged_of (move_grid g d) = (\<exists>k<4. snd (snd (slideRow (gline d g k))))"
    by simp_all
  have "slideRow (gline d g k) = (gline d g k, 0, False)" if "k < 4" for k
    using l that slideRow_fixed [of "gline d g k"] by simp
  then show ?thesis unfolding s m by simp
qed

text \<open>
  C6: the moved flag is false exactly when the board after the move has the same value in
  every cell as the board before it; then the score is 0, the merged flag is false, and
  every cell holds the tile it held, with its flags cleared. This holds for the tile engine
  on every board with one tile per cell, and for the grid engine on every 4x4 grid.
\<close>

theorem moved_iff_board_changed:
  "(board ts \<longrightarrow>
      (\<exists>res n'. move ts d n = Inr (res, n') \<and>
         (\<not> moved res \<longleftrightarrow> valuesOf (tiles res) = valuesOf ts) \<and>
         (\<not> moved res \<longrightarrow> score res = 0 \<and> \<not> merged res \<and>
            (\<forall>r\<in>set [0, 1, 2, 3]. \<forall>c\<in>set [0, 1, 2, 3].
               tileAt (tiles res) r c = map_option clearFlags (tileAt ts r c))))) \<and>
   (wf_grid g \<longrightarrow>
      (\<not> moved_of (move_grid g d) \<longleftrightarrow> grid_of (move_grid g d) = g) \<and>
      (\<not> moved_of (move_grid g d) \<longrightarrow> score_of (move_grid g d) = 0 \<and> \<not> merged_of (move_grid g d)))"
proof (intro conjI impI)
  assume b: "board ts"
  then have b': "list_all onBoard ts" "distinct (map (\<lambda>t. (row t, col t)) ts)"
    by (simp_all add: board_def)
  let ?G = "move_grid (valuesOf ts) d"
  from move_refines [OF b', of d n] obtain res n' where
    mv: "move ts d n = Inr (res, n')"
    and eq: "valuesOf (tiles res) = grid_of ?G" "score res = score_of ?G"
      "moved res = moved_of ?G" "merged res = merged_of ?G"
    by blast
  have mo: "moved_of ?G = (valuesOf ts \<noteq> grid_of ?G)"
    using move_grid_lines [OF wf_grid_valuesOf, of ts d] by simp
  have 1: "\<not> moved res \<longleftrightarrow> valuesOf (tiles res) = valuesOf ts"
    using eq mo by auto
  have 2: "score res = 0 \<and> \<not> merged res" if "\<not> moved res"
    using that eq mo move_grid_unmoved [OF wf_grid_valuesOf, of ts d] by auto
  have 3: "\<forall>r\<in>set [0, 1, 2, 3]. \<forall>c\<in>set [0, 1, 2, 3].
               tileAt (tiles res) r c = map_option clearFlags (tileAt ts r c)" if "\<not> moved res"
  proof (intro ballI)
    fix r c :: int assume "r \<in> set [0, 1, 2, 3]" "c \<in> set [0, 1, 2, 3]"
    then have "0 \<le> r \<and> r \<le> 3 \<and> 0 \<le> c \<and> c \<le> 3" by auto
    from move_unmoved [OF b mv that this]
    show "tileAt (tiles res) r c = map_option clearFlags (tileAt ts r c)" .
  qed
  from mv 1 2 3 show "\<exists>res n'. move ts d n = Inr (res, n') \<and>
         (\<not> moved res \<longleftrightarrow> valuesOf (tiles res) = valuesOf ts) \<and>
         (\<not> moved res \<longrightarrow> score res = 0 \<and> \<not> merged res \<and>
            (\<forall>r\<in>set [0, 1, 2, 3]. \<forall>c\<in>set [0, 1, 2, 3].
               tileAt (tiles res) r c = map_option clearFlags (tileAt ts r c)))"
    by blast
next
  assume w: "wf_grid g"
  show "\<not> moved_of (move_grid g d) \<longleftrightarrow> grid_of (move_grid g d) = g"
    using move_grid_lines [OF w, of d] by auto
next
  assume w: "wf_grid g" and "\<not> moved_of (move_grid g d)"
  then have "grid_of (move_grid g d) = g" using move_grid_lines [OF w, of d] by auto
  then show "score_of (move_grid g d) = 0" "\<not> merged_of (move_grid g d)"
    using move_grid_unmoved [OF w] by auto
qed

theorem moved_iff_board_changed_witness:
  "board example_stuck \<and> wf_grid (valuesOf example_stuck) \<and>
   (\<exists>res n'. move example_stuck Left 4 = Inr (res, n') \<and> \<not> moved res \<and>
      valuesOf (tiles res) = valuesOf example_stuck \<and> score res = 0 \<and> \<not> merged res) \<and>
   \<not> moved_of (move_grid (valuesOf example_stuck) Left) \<and>
   grid_of (move_grid (valuesOf example_stuck) Left) = valuesOf example_stuck \<and>
   score_of (move_grid (valuesOf example_stuck) Left) = 0 \<and>
   \<not> merged_of (move_grid (valuesOf example_stuck) Left)"
proof -
  have b: "board example_stuck" by code_simp
  have w: "wf_grid (valuesOf example_stuck)" by code_simp
  have m: "move example_stuck Left 4 =
     Inr (\<lparr>tiles = example_stuck, score = 0, moved = False, merged = False\<rparr>, 4)" by code_simp
  have gm: "\<not> moved_of (move_grid (valuesOf example_stuck) Left)" by code_simp
  note th = moved_iff_board_changed [of example_stuck Left 4 "valuesOf example_stuck"]
  from th b obtain res n' where r: "move example_stuck Left 4 = Inr (res, n')"
    "\<not> moved res \<longleftrightarrow> valuesOf (tiles res) = valuesOf example_stuck"
    "\<not> moved res \<longrightarrow> score res = 0 \<and> \<not> merged res"
    by blast
  from r(1) m have "\<not> moved res" by auto
  with r have 1: "\<exists>res n'. move example_stuck Left 4 = Inr (res, n') \<and> \<not> moved res \<and>
      valuesOf (tiles res) = valuesOf example_stuck \<and> score res = 0 \<and> \<not> merged res"
    by blast
  from th w gm have 2: "grid_of (move_grid (valuesOf example_stuck) Left) = valuesOf example_stuck \<and>
   score_of (move_grid (valuesOf example_stuck) Left) = 0 \<and>
   \<not> merged_of (move_grid (valuesOf example_stuck) Left)"
    by blast
  from b w 1 gm 2 show ?thesis by blast
qed

subsection \<open>Sums over the board, and the total of the values\<close>

lemma int03: "{0..3::int} = {0, 1, 2, 3}"
  by auto

lemma tileAt_Cons:
  "tileAt (t # ts) r c = (if row t = r \<and> col t = c then Some t else tileAt ts r c)"
  by (simp add: tileAt_def)

lemma tileAt_None: "(r, c) \<notin> set (map (\<lambda>t. (row t, col t)) ts) \<Longrightarrow> tileAt ts r c = None"
  by (auto simp: tileAt_def find_None_iff)

lemma sum_board:
  fixes f :: "tile \<Rightarrow> int"
  shows "board ts \<Longrightarrow>
   (\<Sum>r\<in>{0..3::int}. \<Sum>c\<in>{0..3::int}. case tileAt ts r c of None \<Rightarrow> 0 | Some t \<Rightarrow> f t) =
   sum_list (map f ts)"
proof (induction ts)
  case Nil
  then show ?case by (simp add: tileAt_def)
next
  case (Cons t ts)
  from Cons.prems have b: "board ts" and ob: "0 \<le> row t" "row t \<le> 3" "0 \<le> col t" "col t \<le> 3"
    and fresh: "(row t, col t) \<notin> set (map (\<lambda>t. (row t, col t)) ts)"
    by (auto simp: board_def onBoard_def)
  have e: "tileAt ts (row t) (col t) = None" using fresh by (rule tileAt_None)
  have "(case tileAt (t # ts) r c of None \<Rightarrow> 0 | Some t \<Rightarrow> f t) =
        (case tileAt ts r c of None \<Rightarrow> 0 | Some t \<Rightarrow> f t) +
        (if r = row t then (if c = col t then f t else 0) else 0)" for r c
    using e by (auto simp: tileAt_Cons)
  then have "(\<Sum>r\<in>{0..3::int}. \<Sum>c\<in>{0..3::int}. case tileAt (t # ts) r c of None \<Rightarrow> 0 | Some t \<Rightarrow> f t) =
        (\<Sum>r\<in>{0..3::int}. \<Sum>c\<in>{0..3::int}. case tileAt ts r c of None \<Rightarrow> 0 | Some t \<Rightarrow> f t) +
        (\<Sum>r\<in>{0..3::int}. \<Sum>c\<in>{0..3::int}. if r = row t then (if c = col t then f t else 0) else 0)"
    by (simp add: sum.distrib)
  also have "(\<Sum>r\<in>{0..3::int}. \<Sum>c\<in>{0..3::int}. if r = row t then (if c = col t then f t else 0) else 0) = f t"
  proof -
    have "row t \<in> {0, 1, 2, 3}" "col t \<in> {0, 1, 2, 3}" using ob by auto
    then show ?thesis by (auto simp: int03)
  qed
  finally show ?case using Cons.IH [OF b] by simp
qed

lemma sum_board_lines:
  fixes h :: "int \<Rightarrow> int \<Rightarrow> int"
  shows "(\<Sum>r\<in>{0..3::int}. \<Sum>c\<in>{0..3::int}. h r c) =
         (\<Sum>k<4. \<Sum>i<4. h (fst (pos d k i)) (snd (pos d k i)))"
  by (cases d) (simp_all add: int03 sum_less4 pos_def)

lemma sum_list_upt4: "sum_list (map h [0 ..< 4]) = (\<Sum>i<4. (h i :: int))"
  by (simp add: upt4 sum_less4)

lemma tiles_sum_flines:
  assumes "board ts"
  shows "sum_list (map (\<lambda>t. F (tileAbs t)) ts) = (\<Sum>k<4. optSum F (fline d ts k))"
proof -
  have "optSum F (fline d ts k) =
        (\<Sum>i<4. case tileAt ts (fst (pos d k i)) (snd (pos d k i)) of None \<Rightarrow> 0 | Some t \<Rightarrow> F (tileAbs t))" for k
  proof -
    have "(case map_option tileAbs x of None \<Rightarrow> 0 | Some p \<Rightarrow> F p) =
          (case x of None \<Rightarrow> 0 | Some t \<Rightarrow> F (tileAbs t))" for x
      by (cases x) simp_all
    then show ?thesis
      unfolding optSum_def fline_def by (simp add: o_def sum_list_upt4)
  qed
  then show ?thesis
    using sum_board [OF assms, of "\<lambda>t. F (tileAbs t)"]
      sum_board_lines [of "\<lambda>r c. case tileAt ts r c of None \<Rightarrow> 0 | Some t \<Rightarrow> F (tileAbs t)" d]
    by simp
qed

lemma fline_flatTiles:
  assumes "wf_grid g" "placed g" "k < 4"
  shows "fline d (flatTiles g) k = lcells d g k"
proof -
  have "tileAt (flatTiles g) (fst (pos d k i)) (snd (pos d k i)) = cellAt g (pos d k i)"
    if "i \<in> set [0 ..< 4]" for i
    using that tileAt_flatTiles [OF assms(1,2) pos_range [OF assms(3), of i d]] by (simp add: cellAt_def)
  then show ?thesis unfolding fline_def lcells_def by (intro map_cong) auto
qed

lemma vline_fline: "vline d ts k = map (map_option fst) (fline d ts k)"
  by (simp add: vline_def fline_def option.map_comp o_def tileAbs_def)

lemma move_flines:
  assumes "board ts"
  shows "\<exists>res n'. move ts d n = Inr (res, n') \<and> board (tiles res) \<and>
          (\<forall>k<4. fline d (tiles res) k = lineResult (vline d ts k)) \<and>
          score res = (\<Sum>k<4. mergedSum (pairUp (compact (vline d ts k))))"
proof -
  from assms have b: "list_all onBoard ts" "distinct (map (\<lambda>t. (row t, col t)) ts)"
    by (simp_all add: board_def)
  have lr: "cells (lrun (linit (vline d ts k))) = lineResult (vline d ts k)"
    "lscore (lrun (linit (vline d ts k))) = mergedSum (pairUp (compact (vline d ts k)))" for k
  proof -
    obtain a b c e where v: "vline d ts k = [a, b, c, e]" using vline_4 by blast
    show "cells (lrun (linit (vline d ts k))) = lineResult (vline d ts k)"
      unfolding v by (rule lrun_cells)
    show "lscore (lrun (linit (vline d ts k))) = mergedSum (pairUp (compact (vline d ts k)))"
      unfolding v by (rule lrun_score)
  qed
  from move_lines [OF b, of d n] obtain g n' where
    mv: "move ts d n =
            Inr (\<lparr>tiles = flatTiles g,
                  score = (\<Sum>k<4. lscore (lrun (linit (vline d ts k)))),
                  moved = (\<exists>k<4. lmoved (lrun (linit (vline d ts k)))),
                  merged = (\<exists>k<4. lmerged (lrun (linit (vline d ts k))))\<rparr>, n')"
    and g: "wf_grid g" "placed g" "\<forall>k<4. lcells d g k = cells (lrun (linit (vline d ts k)))"
    by blast
  from board_move_vlines [OF assms, of d n] mv have bo: "board (flatTiles g)" by auto
  have "\<forall>k<4. fline d (flatTiles g) k = lineResult (vline d ts k)"
    using fline_flatTiles [OF g(1,2)] g(3) by (simp add: lr)
  with mv bo show ?thesis by (simp add: lr)
qed

lemma optSum_lineResult: "optSum F (lineResult r) = sum_list (map F (pairUp (compact r)))"
  by (simp add: optSum_def lineResult_def o_def sum_list_replicate)

lemma optSum_fst: "optSum fst xs = sum_list (compact (map (map_option fst) xs))"
  by (induction xs) (auto simp: optSum_def compact_def List.map_filter_def split: option.splits)

text \<open>
  C10: a move conserves the total of the tile values, on every board with one tile per
  cell whose values are at most \<open>2 ^ 48\<close> in absolute value, and in every direction.
  (The bound keeps the doubled values in the range of the JavaScript numbers.)
\<close>

theorem move_conserves_total:
  assumes "board ts" "safeValues ts"
  shows "\<exists>res n'. move ts d n = Inr (res, n') \<and>
           sum_list (map value_t (tiles res)) = sum_list (map value_t ts)"
proof -
  from move_flines [OF assms(1), of d n] obtain res n' where
    mv: "move ts d n = Inr (res, n')" and b: "board (tiles res)"
    and fl: "\<forall>k<4. fline d (tiles res) k = lineResult (vline d ts k)"
    by blast
  have v: "(\<lambda>t. fst (tileAbs t)) = value_t" by (simp add: tileAbs_def)
  have "sum_list (map value_t (tiles res)) = (\<Sum>k<4. optSum fst (fline d (tiles res) k))"
    using tiles_sum_flines [OF b, of fst d] by (simp add: v)
  also have "\<dots> = (\<Sum>k<4. sum_list (map fst (pairUp (compact (vline d ts k)))))"
    using fl by (simp add: optSum_lineResult)
  also have "\<dots> = (\<Sum>k<4. sum_list (compact (vline d ts k)))"
    by (simp add: sum_pairUp)
  also have "\<dots> = (\<Sum>k<4. optSum fst (fline d ts k))"
    by (simp add: optSum_fst vline_fline)
  also have "\<dots> = sum_list (map value_t ts)"
    using tiles_sum_flines [OF assms(1), of fst d] by (simp add: v)
  finally show ?thesis using mv by blast
qed

theorem move_conserves_total_witness:
  "board example_row \<and> safeValues example_row \<and>
   (\<exists>res n'. move example_row Left 4 = Inr (res, n') \<and>
           sum_list (map value_t (tiles res)) = 6 \<and> sum_list (map value_t example_row) = 6)"
proof -
  have b: "board example_row" by code_simp
  have s: "sum_list (map value_t example_row) = 6" by code_simp
  have v: "safeValues example_row" by code_simp
  from move_conserves_total [OF b v, of Left 4] b s v show ?thesis by auto
qed

subsection \<open>Merged tiles and the score\<close>

lemma pairUp_merged_value: "(v, True) \<in> set (pairUp xs) \<Longrightarrow> \<exists>x\<in>set xs. v = x * 2"
  by (induction xs rule: pairUp.induct) (auto split: if_splits)

lemma even_mergedSum: "even (mergedSum (pairUp xs))"
  by (induction xs rule: pairUp.induct) (auto simp: mergedSum_def)

lemma mergedSum_nonneg: "\<forall>x\<in>set xs. 0 \<le> x \<Longrightarrow> 0 \<le> mergedSum (pairUp xs)"
  by (induction xs rule: pairUp.induct) (auto simp: mergedSum_def)

lemma length_pairUp_merged: "length (pairUp xs) + length (filter snd (pairUp xs)) = length xs"
  by (induction xs rule: pairUp.induct) auto

lemma in_compact: "x \<in> set (compact r) \<longleftrightarrow> Some x \<in> set r"
  by (simp add: compact_def in_set_map_filter_id)

lemma vline_values:
  assumes "x \<in> set (compact (vline d ts k))"
  shows "\<exists>a\<in>set ts. value_t a = x"
proof -
  from assms have "Some x \<in> set (vline d ts k)" by (simp add: in_compact)
  then obtain i where "i < 4" "vline d ts k ! i = Some x"
    by (auto simp: in_set_conv_nth)
  then have "map_option value_t (tileAt ts (fst (pos d k i)) (snd (pos d k i))) = Some x"
    by (simp add: vline_def)
  then obtain a where "tileAt ts (fst (pos d k i)) (snd (pos d k i)) = Some a" "value_t a = x" by auto
  then show ?thesis by (auto simp: tileAt_def find_Some_iff)
qed

lemma tileAt_member:
  assumes "board ts" "t \<in> set ts"
  shows "tileAt ts (row t) (col t) = Some t"
  using find_distinct [of "\<lambda>t. (row t, col t)" ts t] assms by (simp add: board_def tileAt_def)

lemma member_fline:
  assumes "board ts" "t \<in> set ts"
  shows "\<exists>k<4. Some (tileAbs t) \<in> set (fline d ts k)"
proof -
  from assms have rc: "0 \<le> row t" "row t \<le> 3" "0 \<le> col t" "col t \<le> 3"
    by (auto simp: board_def list_all_iff onBoard_def)
  let ?k = "lineOf d (row t) (col t)" and ?i = "idxOf d (row t) (col t)"
  from pos_lineOf_idxOf [OF rc, of d] have p: "pos d ?k ?i = (row t, col t)" "?k < 4" "?i < 4" .
  have "fline d ts ?k ! ?i = Some (tileAbs t)"
    using p tileAt_member [OF assms] by (simp add: fline_def)
  moreover have "?i < length (fline d ts ?k)" using p(3) by (simp add: fline_def)
  ultimately have "Some (tileAbs t) \<in> set (fline d ts ?k)" by (metis nth_mem)
  with p(2) show ?thesis by blast
qed

lemma sum_filter_flag:
  "sum_list (map value_t (filter (\<lambda>t. isMerged t = Some True) ts)) =
   sum_list (map (\<lambda>t. (\<lambda>p. if snd p then fst p else 0) (tileAbs t)) ts)"
  by (induction ts) (auto simp: tileAbs_def)

lemma length_filter_flag:
  "int (length (filter (\<lambda>t. isMerged t = Some True) ts)) =
   sum_list (map (\<lambda>t. (\<lambda>p. if snd p then 1 else 0) (tileAbs t)) ts)"
  by (induction ts) (auto simp: tileAbs_def)

lemma length_as_sum: "int (length ts) = sum_list (map (\<lambda>t. (\<lambda>p. 1) (tileAbs t)) (ts :: tile list))"
  by (induction ts) auto

lemma sum_flag_mergedSum: "sum_list (map (\<lambda>p. if snd p then fst p else 0) ps) = mergedSum ps"
  by (induction ps) (auto simp: mergedSum_def)

lemma sum_flag_count: "sum_list (map (\<lambda>p. if snd p then 1 else 0) ps) = int (length (filter snd ps))"
  by (induction ps) auto

lemma sum_ones: "sum_list (map (\<lambda>p. 1) ps) = int (length ps)"
  by (induction ps) auto

lemma optSum_one: "optSum (\<lambda>p. 1) xs = int (length (compact (map (map_option fst) xs)))"
  by (induction xs) (auto simp: optSum_def compact_def List.map_filter_def split: option.splits)

lemma move_merged_tiles:
  assumes "board ts"
  shows "\<exists>res n'. move ts d n = Inr (res, n') \<and>
           score res = sum_list (map value_t (filter (\<lambda>t. isMerged t = Some True) (tiles res))) \<and>
           length (tiles res) + length (filter (\<lambda>t. isMerged t = Some True) (tiles res)) = length ts \<and>
           (\<forall>t\<in>set (tiles res). isMerged t = Some True \<longrightarrow> (\<exists>a\<in>set ts. value_t t = 2 * value_t a)) \<and>
           even (score res) \<and> ((\<forall>a\<in>set ts. 0 \<le> value_t a) \<longrightarrow> 0 \<le> score res)"
proof -
  from move_flines [OF assms, of d n] obtain res n' where
    mv: "move ts d n = Inr (res, n')" and b: "board (tiles res)"
    and fl: "\<forall>k<4. fline d (tiles res) k = lineResult (vline d ts k)"
    and sc: "score res = (\<Sum>k<4. mergedSum (pairUp (compact (vline d ts k))))"
    by blast
  have lines: "sum_list (map (\<lambda>t. F (tileAbs t)) (tiles res)) =
               (\<Sum>k<4. sum_list (map F (pairUp (compact (vline d ts k)))))" for F :: "int \<times> bool \<Rightarrow> int"
  proof -
    have "(\<Sum>k<4. optSum F (fline d (tiles res) k)) =
          (\<Sum>k<4. sum_list (map F (pairUp (compact (vline d ts k)))))"
      by (rule sum.cong) (simp_all add: fl optSum_lineResult)
    then show ?thesis using tiles_sum_flines [OF b, of F d] by simp
  qed
  have 1: "score res = sum_list (map value_t (filter (\<lambda>t. isMerged t = Some True) (tiles res)))"
    unfolding sum_filter_flag sc
    using lines [of "\<lambda>p. if snd p then fst p else 0"] by (simp only: sum_flag_mergedSum)
  have a: "int (length (filter (\<lambda>t. isMerged t = Some True) (tiles res))) =
           (\<Sum>k<4. int (length (filter snd (pairUp (compact (vline d ts k))))))"
    unfolding length_filter_flag
    using lines [of "\<lambda>p. if snd p then 1 else 0"] by (simp only: sum_flag_count)
  have b': "int (length (tiles res)) = (\<Sum>k<4. int (length (pairUp (compact (vline d ts k)))))"
    unfolding length_as_sum
    using lines [of "\<lambda>p. 1"] by (simp only: sum_ones)
  have "(\<Sum>k<4. optSum (\<lambda>p. 1) (fline d ts k)) = (\<Sum>k<4. int (length (compact (vline d ts k))))"
    by (rule sum.cong) (simp_all only: optSum_one vline_fline)
  then have c: "int (length ts) = (\<Sum>k<4. int (length (compact (vline d ts k))))"
    unfolding length_as_sum
    using tiles_sum_flines [OF assms, of "\<lambda>p. 1" d] by (simp only:)
  have "int (length (pairUp xs)) + int (length (filter snd (pairUp xs))) = int (length xs)" for xs
    using length_pairUp_merged [of xs] by (simp only: of_nat_add [symmetric])
  then have "int (length (tiles res)) + int (length (filter (\<lambda>t. isMerged t = Some True) (tiles res))) =
        int (length ts)"
    unfolding a b' c by (simp only: sum.distrib [symmetric])
  then have 2: "length (tiles res) + length (filter (\<lambda>t. isMerged t = Some True) (tiles res)) = length ts"
    by (simp only: of_nat_add [symmetric] of_nat_eq_iff)
  have 3: "\<exists>a\<in>set ts. value_t t = 2 * value_t a"
    if t: "t \<in> set (tiles res)" and m: "isMerged t = Some True" for t
  proof -
    from member_fline [OF b t, of d] obtain k where k: "k < 4" "Some (tileAbs t) \<in> set (fline d (tiles res) k)"
      by blast
    with fl have "Some (value_t t, True) \<in> set (lineResult (vline d ts k))"
      using m by (simp add: tileAbs_def)
    then have "(value_t t, True) \<in> set (pairUp (compact (vline d ts k)))"
      by (auto simp: lineResult_def)
    from pairUp_merged_value [OF this] obtain x where "x \<in> set (compact (vline d ts k))" "value_t t = x * 2"
      by blast
    with vline_values [of x d ts k] show ?thesis by auto
  qed
  have 4: "even (score res)" unfolding sc sum_less4 by (simp add: even_mergedSum)
  have 5: "0 \<le> score res" if "\<forall>a\<in>set ts. 0 \<le> value_t a"
  proof -
    have "0 \<le> mergedSum (pairUp (compact (vline d ts k)))" for k
      using that vline_values [of _ d ts k] by (intro mergedSum_nonneg) auto
    then show ?thesis unfolding sc by (simp add: sum_nonneg)
  qed
  from mv 1 2 3 4 5 show ?thesis by blast
qed

lemma walk_stops_unmerged:
  "walk d g m v r c = (r', c') \<Longrightarrow> (r', c') \<noteq> (r, c) \<Longrightarrow> cell g r' c' \<noteq> None \<Longrightarrow> \<not> cell m r' c'"
proof (induction d g m v r c rule: walk.induct)
  case (1 d g m v newRow newCol)
  let ?nr = "newRow + fst (getVector d)" and ?nc = "newCol + snd (getVector d)"
  show ?case
  proof (cases "?nr < 0 \<or> ?nr > 3 \<or> ?nc < 0 \<or> ?nc > 3")
    case True
    with "1.prems" show ?thesis by (subst (asm) walk.simps) (simp add: Let_def)
  next
    case False
    show ?thesis
    proof (cases "cell g ?nr ?nc")
      case None
      with False "1.prems"(1) have w: "walk d g m v ?nr ?nc = (r', c')"
        by (subst (asm) walk.simps) (simp add: Let_def)
      show ?thesis
      proof (cases "(r', c') = (?nr, ?nc)")
        case True
        with None "1.prems"(3) show ?thesis by simp
      next
        case ne: False
        from "1.IH" [OF refl refl False None w ne "1.prems"(3)] show ?thesis .
      qed
    next
      case (Some nt)
      with False "1.prems" show ?thesis
        by (subst (asm) walk.simps) (auto simp: Let_def split: if_splits)
    qed
  qed
qed

text \<open>
  C3: on every well-formed board whose values are at most \<open>2 ^ 48\<close> the score of a
  move is the sum of the values of the tiles that the move created by merging (the tiles
  of the result that are marked merged), each of which has twice the value of a tile of
  the input; the score is even and not negative. (The bound keeps the score in the range
  where JavaScript adds exactly.)
\<close>

theorem score_is_sum_of_merges:
  assumes "well_formed ts" "safeValues ts"
  shows "\<exists>res n'. move ts d n = Inr (res, n') \<and>
           score res = sum_list (map value_t (filter (\<lambda>t. isMerged t = Some True) (tiles res))) \<and>
           (\<forall>t\<in>set (tiles res). isMerged t = Some True \<longrightarrow> (\<exists>a\<in>set ts. value_t t = 2 * value_t a)) \<and>
           0 \<le> score res \<and> even (score res)"
proof -
  from assms(1) have b: "board ts" by (rule well_formed_imp_board)
  from assms(1) have "\<forall>a\<in>set ts. 0 \<le> value_t a"
    by (auto simp: well_formed_def list_all_iff)
  with move_merged_tiles [OF b, of d n] show ?thesis by blast
qed

theorem score_is_sum_of_merges_witness:
  "well_formed example_row \<and> safeValues example_row \<and>
   (\<exists>res n'. move example_row Left 4 = Inr (res, n') \<and> score res = 4 \<and>
      sum_list (map value_t (filter (\<lambda>t. isMerged t = Some True) (tiles res))) = 4 \<and>
      0 \<le> score res \<and> even (score res))"
proof -
  have w: "well_formed example_row" by code_simp
  have s: "score (fst (projr (move example_row Left 4))) = 4" by code_simp
  have v: "safeValues example_row" by code_simp
  from score_is_sum_of_merges [OF w v, of Left 4] obtain res n' where
    r: "move example_row Left 4 = Inr (res, n')"
      "score res = sum_list (map value_t (filter (\<lambda>t. isMerged t = Some True) (tiles res)))"
      "0 \<le> score res" "even (score res)"
    by blast
  from r(1) s have "score res = 4" by simp
  with r w v show ?thesis by auto
qed

text \<open>
  C5: merging is pairwise. On every board with one tile per cell, each merged tile of the
  result stands for two tiles of the input (the result has as many tiles fewer than the
  input as it has merged tiles) and has twice the value of a tile of the input; the walk
  of a tile never ends on an occupied cell that has been merged into in this move. The
  row 2, empty, 2, 2 moved to the left becomes 4, 2, empty, empty with a score of 4, in
  both engines.
\<close>

theorem merging_is_pairwise:
  "(board ts \<longrightarrow>
      (\<exists>res n'. move ts d n = Inr (res, n') \<and>
         length (tiles res) + length (filter (\<lambda>t. isMerged t = Some True) (tiles res)) = length ts \<and>
         (\<forall>t\<in>set (tiles res). isMerged t = Some True \<longrightarrow> (\<exists>a\<in>set ts. value_t t = 2 * value_t a)))) \<and>
   (walk d g m v r c = (r', c') \<and> (r', c') \<noteq> (r, c) \<and> cell g r' c' \<noteq> None \<longrightarrow> \<not> cell m r' c') \<and>
   move example_row Left 4 =
     Inr (\<lparr>tiles = [\<lparr>id_t = 4, value_t = 4, row = 0, col = 0, isNew = Some False, isMerged = Some True\<rparr>,
                    \<lparr>id_t = 3, value_t = 2, row = 0, col = 1, isNew = Some False, isMerged = Some False\<rparr>],
           score = 4, moved = True, merged = True\<rparr>, 5) \<and>
   valuesOf example_row ! 0 = [Some 2, None, Some 2, Some 2] \<and>
   valuesOf [\<lparr>id_t = 4, value_t = 4, row = 0, col = 0, isNew = Some False, isMerged = Some True\<rparr>,
             \<lparr>id_t = 3, value_t = 2, row = 0, col = 1, isNew = Some False, isMerged = Some False\<rparr>] ! 0 =
     [Some 4, Some 2, None, None] \<and>
   slideRow [Some 2, None, Some 2, Some 2] = ([Some 4, Some 2, None, None], 4, True)"
proof (intro conjI impI)
  assume "board ts"
  from move_merged_tiles [OF this, of d n]
  show "\<exists>res n'. move ts d n = Inr (res, n') \<and>
         length (tiles res) + length (filter (\<lambda>t. isMerged t = Some True) (tiles res)) = length ts \<and>
         (\<forall>t\<in>set (tiles res). isMerged t = Some True \<longrightarrow> (\<exists>a\<in>set ts. value_t t = 2 * value_t a))"
    by blast
next
  assume "walk d g m v r c = (r', c') \<and> (r', c') \<noteq> (r, c) \<and> cell g r' c' \<noteq> None"
  then show "\<not> cell m r' c'" using walk_stops_unmerged [of d g m v r c r' c'] by blast
next
  show "move example_row Left 4 =
     Inr (\<lparr>tiles = [\<lparr>id_t = 4, value_t = 4, row = 0, col = 0, isNew = Some False, isMerged = Some True\<rparr>,
                    \<lparr>id_t = 3, value_t = 2, row = 0, col = 1, isNew = Some False, isMerged = Some False\<rparr>],
           score = 4, moved = True, merged = True\<rparr>, 5)"
    by code_simp
  show "valuesOf example_row ! 0 = [Some 2, None, Some 2, Some 2]" by code_simp
  show "valuesOf [\<lparr>id_t = 4, value_t = 4, row = 0, col = 0, isNew = Some False, isMerged = Some True\<rparr>,
             \<lparr>id_t = 3, value_t = 2, row = 0, col = 1, isNew = Some False, isMerged = Some False\<rparr>] ! 0 =
     [Some 4, Some 2, None, None]"
    by code_simp
  show "slideRow [Some 2, None, Some 2, Some 2] = ([Some 4, Some 2, None, None], 4, True)"
    by code_simp
qed

theorem merging_is_pairwise_witness:
  "board example_row \<and>
   (\<exists>res n'. move example_row Left 4 = Inr (res, n') \<and>
      length (tiles res) + length (filter (\<lambda>t. isMerged t = Some True) (tiles res)) = 3) \<and>
   walk Left example_row_grid (replicate 4 (replicate 4 False)) 2 0 2 = (0, 0) \<and>
   cell example_row_grid 0 0 \<noteq> None \<and>
   \<not> cell (replicate 4 (replicate 4 False)) 0 0"
proof -
  have b: "board example_row" by code_simp
  have l: "length example_row = 3" by code_simp
  have w: "walk Left example_row_grid (replicate 4 (replicate 4 False)) 2 0 2 = (0, 0)" by code_simp
  have c: "cell example_row_grid 0 0 \<noteq> None" by code_simp
  note th = merging_is_pairwise [where ts = example_row and d = Left and n = 4 and g = example_row_grid
      and m = "replicate 4 (replicate 4 False)" and v = 2 and r = 0 and c = 2 and r' = 0 and c' = 0]
  from th b l have 1: "\<exists>res n'. move example_row Left 4 = Inr (res, n') \<and>
      length (tiles res) + length (filter (\<lambda>t. isMerged t = Some True) (tiles res)) = 3"
    by auto
  from th w c have 2: "\<not> cell (replicate 4 (replicate 4 False)) 0 0" by simp
  from b 1 w c 2 show ?thesis by blast
qed

subsection \<open>A move followed by a spawn\<close>

lemma set_comprehension:
  "set [(r, c). r \<leftarrow> rs, c \<leftarrow> cs, P r c] = {(r, c). r \<in> set rs \<and> c \<in> set cs \<and> P r c}"
  by auto

lemma set_getEmptyCells:
  "set (getEmptyCells ts) =
     {(r, c). r \<in> {0, 1, 2, 3} \<and> c \<in> {0, 1, 2, 3} \<and> (r, c) \<notin> set (map (\<lambda>t. (row t, col t)) ts)}"
  unfolding getEmptyCells_def Let_def set_comprehension by simp

lemma board_length: 
  assumes "board ts"
  shows "length ts \<le> 16"
proof -
  let ?ps = "map (\<lambda>t. (row t, col t)) ts"
  have "set ?ps \<subseteq> {0..3} \<times> {0..3}"
    using assms by (auto simp: board_def list_all_iff onBoard_def)
  then have "card (set ?ps) \<le> card ({0..3::int} \<times> {0..3::int})"
    by (intro card_mono) auto
  moreover have "card (set ?ps) = length ts"
    using assms distinct_card [of ?ps] by (simp add: board_def)
  ultimately show ?thesis by simp
qed

lemma random_index:
  assumes "0 \<le> u" "u < 1" "0 < n"
  shows "nat \<lfloor>u * real n\<rfloor> < n"
proof -
  have "u * real n < real n" using assms by simp
  then have "\<lfloor>u * real n\<rfloor> < int n" by (simp add: floor_less_iff)
  moreover have "0 \<le> \<lfloor>u * real n\<rfloor>" using assms by simp
  ultimately show ?thesis by linarith
qed

lemma board_clearFlags: "board (map clearFlags ts) = board ts"
  by (simp add: board_def list_all_iff onBoard_def clearFlags_def o_def)

lemma positions_clearFlags:
  "map (\<lambda>t. (row t, col t)) (map clearFlags ts) = map (\<lambda>t. (row t, col t)) ts"
  by (simp add: clearFlags_def o_def)

lemma spawnTile_board:
  assumes b: "board ts" and u: "0 \<le> u1" "u1 < 1"
  shows "board (fst (spawnTile ts u1 u2 n)) \<and>
         (fst (spawnTile ts u1 u2 n) = ts \<or>
          (\<exists>t. fst (spawnTile ts u1 u2 n) = map clearFlags ts @ [t] \<and>
               (row t, col t) \<notin> set (map (\<lambda>t. (row t, col t)) ts)))"
proof (cases "getEmptyCells ts = []")
  case True
  then show ?thesis using b by (simp add: spawnTile_def)
next
  case False
  let ?e = "getEmptyCells ts"
  let ?p = "?e ! nat \<lfloor>u1 * real (length ?e)\<rfloor>"
  let ?t = "\<lparr>id_t = n, value_t = (if u2 < 9 / 10 then 2 else 4), row = fst ?p, col = snd ?p,
             isNew = Some True, isMerged = None\<rparr>"
  have "nat \<lfloor>u1 * real (length ?e)\<rfloor> < length ?e"
    using random_index [OF u, of "length ?e"] False by simp
  then have "?p \<in> set ?e" by (rule nth_mem)
  then have p: "fst ?p \<in> {0, 1, 2, 3}" "snd ?p \<in> {0, 1, 2, 3}"
    "(fst ?p, snd ?p) \<notin> set (map (\<lambda>t. (row t, col t)) ts)"
    unfolding set_getEmptyCells by (auto simp: case_prod_beta)
  have s: "fst (spawnTile ts u1 u2 n) = map clearFlags ts @ [?t]"
    using False by (simp add: spawnTile_def Let_def split_def createTile_def)
  have "onBoard ?t" using p(1,2) by (auto simp: onBoard_def)
  moreover have "(row ?t, col ?t) \<notin> set (map (\<lambda>t. (row t, col t)) (map clearFlags ts))"
    using p(3) by (simp only: positions_clearFlags) simp
  ultimately have "board (map clearFlags ts @ [?t])"
    using b board_clearFlags [of ts] by (simp add: board_def del: map_map)
  moreover have "(row ?t, col ?t) \<notin> set (map (\<lambda>t. (row t, col t)) ts)" using p(3) by simp
  ultimately show ?thesis unfolding s by blast
qed

text \<open>
  C8: a move followed by a spawn keeps the board well-formed. On every well-formed board,
  for every direction and for all random numbers in the range of \<open>Math.random()\<close>, the
  tiles after \<open>move\<close> and \<open>spawnTile\<close> are on the board, at most one per cell and at
  most 16; the spawn either returns the tiles of the move (full board) or adds one tile
  on a cell that no tile of the move's result occupies.
\<close>

theorem move_then_spawn_keeps_board:
  assumes "well_formed ts" "0 \<le> u1" "u1 < 1"
  shows "\<exists>res n'. move ts d n = Inr (res, n') \<and>
           length (fst (spawnTile (tiles res) u1 u2 n')) \<le> 16 \<and>
           list_all onBoard (fst (spawnTile (tiles res) u1 u2 n')) \<and>
           distinct (map (\<lambda>t. (row t, col t)) (fst (spawnTile (tiles res) u1 u2 n'))) \<and>
           (fst (spawnTile (tiles res) u1 u2 n') = tiles res \<or>
            (\<exists>t. fst (spawnTile (tiles res) u1 u2 n') = map clearFlags (tiles res) @ [t] \<and>
                 (row t, col t) \<notin> set (map (\<lambda>t. (row t, col t)) (tiles res))))"
proof -
  from assms(1) have "board ts" by (rule well_formed_imp_board)
  from board_move_vlines [OF this, of d n] obtain res n' where
    mv: "move ts d n = Inr (res, n')" and b: "board (tiles res)" by blast
  from spawnTile_board [OF b assms(2,3), of u2 n'] board_length [of "fst (spawnTile (tiles res) u1 u2 n')"] mv
  show ?thesis unfolding board_def by blast
qed

theorem move_then_spawn_keeps_board_witness:
  "well_formed example_row \<and> (0::real) \<le> 1 / 2 \<and> (1 / 2 :: real) < 1 \<and>
   (\<exists>res n'. move example_row Left 4 = Inr (res, n') \<and>
           length (fst (spawnTile (tiles res) (1 / 2) (1 / 2) n')) \<le> 16 \<and>
           list_all onBoard (fst (spawnTile (tiles res) (1 / 2) (1 / 2) n')) \<and>
           distinct (map (\<lambda>t. (row t, col t)) (fst (spawnTile (tiles res) (1 / 2) (1 / 2) n'))))"
proof -
  have w: "well_formed example_row" by code_simp
  have u: "(0::real) \<le> 1 / 2" "(1 / 2 :: real) < 1" by simp_all
  from move_then_spawn_keeps_board [OF w u, of Left 4 "1 / 2"] w u show ?thesis by blast
qed

subsection \<open>Whether a move is possible\<close>

lemma set_product_list: "set [(r, c). r \<leftarrow> rs, c \<leftarrow> cs] = set rs \<times> set cs"
  by auto

lemma in_boardCells: "p \<in> set boardCells \<longleftrightarrow> 0 \<le> fst p \<and> fst p \<le> 3 \<and> 0 \<le> snd p \<and> snd p \<le> 3"
proof -
  have "set [0, 1, 2, 3::int] = {0..3}" by auto
  then have "set boardCells = {0..3} \<times> {0..3}"
    unfolding boardCells_def set_product_list by simp
  then show ?thesis by (cases p) simp
qed

lemma list_ex_int4: "list_ex Q [0, 1, 2, 3::int] \<longleftrightarrow> (\<exists>r. 0 \<le> r \<and> r \<le> 3 \<and> Q r)"
proof -
  have "set [0, 1, 2, 3::int] = {r. 0 \<le> r \<and> r \<le> 3}" by auto
  then show ?thesis unfolding list_ex_iff by blast
qed

lemma list_ex_nat4: "list_ex Q [0 ..< 4] \<longleftrightarrow> (\<exists>r. 0 \<le> r \<and> r \<le> 3 \<and> Q (nat r))"
proof -
  have "(\<exists>k<4. Q k) \<longleftrightarrow> (\<exists>r. 0 \<le> r \<and> r \<le> 3 \<and> Q (nat r))"
  proof
    assume "\<exists>k<4. Q k"
    then obtain k where "k < 4" "Q k" by blast
    then have "0 \<le> int k \<and> int k \<le> 3 \<and> Q (nat (int k))" by simp
    then show "\<exists>r. 0 \<le> r \<and> r \<le> 3 \<and> Q (nat r)" by blast
  next
    assume "\<exists>r. 0 \<le> r \<and> r \<le> 3 \<and> Q (nat r)"
    then obtain r where "0 \<le> r" "r \<le> 3" "Q (nat r)" by blast
    then have "nat r < 4 \<and> Q (nat r)" by simp
    then show "\<exists>k<4. Q k" by blast
  qed
  then show ?thesis by (simp add: list_ex_iff Bex_def)
qed

lemma hasEqualNeighbours_scan: "hasEqualNeighbours g = scanNeighbours g"
  unfolding hasEqualNeighbours_def scanNeighbours_def list_ex_int4 by blast

lemma hasEmptyCell_iff:
  "hasEmptyCell g \<longleftrightarrow> (\<exists>r c. 0 \<le> r \<and> r \<le> 3 \<and> 0 \<le> c \<and> c \<le> 3 \<and> cell g r c = None)"
proof
  assume "hasEmptyCell g"
  then obtain p where "p \<in> set boardCells" "cellAt g p = None"
    unfolding hasEmptyCell_def list_ex_iff by blast
  then have "0 \<le> fst p \<and> fst p \<le> 3 \<and> 0 \<le> snd p \<and> snd p \<le> 3 \<and> cell g (fst p) (snd p) = None"
    by (simp add: in_boardCells cellAt_def)
  then show "\<exists>r c. 0 \<le> r \<and> r \<le> 3 \<and> 0 \<le> c \<and> c \<le> 3 \<and> cell g r c = None" by blast
next
  assume "\<exists>r c. 0 \<le> r \<and> r \<le> 3 \<and> 0 \<le> c \<and> c \<le> 3 \<and> cell g r c = None"
  then obtain r c where "0 \<le> r \<and> r \<le> 3 \<and> 0 \<le> c \<and> c \<le> 3 \<and> cell g r c = None" by blast
  then have "(r, c) \<in> set boardCells \<and> cellAt g (r, c) = None"
    by (simp add: in_boardCells cellAt_def)
  then show "hasEmptyCell g" unfolding hasEmptyCell_def list_ex_iff by blast
qed

lemma hasEqualAdjacent_iff:
  "hasEqualAdjacent g \<longleftrightarrow>
     (\<exists>r c r' c'. 0 \<le> r \<and> r \<le> 3 \<and> 0 \<le> c \<and> c \<le> 3 \<and> 0 \<le> r' \<and> r' \<le> 3 \<and> 0 \<le> c' \<and> c' \<le> 3 \<and>
        adjacent (r, c) (r', c') \<and> sameValue (cell g r c) (cell g r' c'))"
proof
  assume "hasEqualAdjacent g"
  then obtain p q where "p \<in> set boardCells" "q \<in> set boardCells" "adjacent p q"
    "sameValue (cellAt g p) (cellAt g q)"
    unfolding hasEqualAdjacent_def list_ex_iff by blast
  then have "0 \<le> fst p \<and> fst p \<le> 3 \<and> 0 \<le> snd p \<and> snd p \<le> 3 \<and>
             0 \<le> fst q \<and> fst q \<le> 3 \<and> 0 \<le> snd q \<and> snd q \<le> 3 \<and>
             adjacent (fst p, snd p) (fst q, snd q) \<and>
             sameValue (cell g (fst p) (snd p)) (cell g (fst q) (snd q))"
    by (simp add: in_boardCells cellAt_def)
  then show "\<exists>r c r' c'. 0 \<le> r \<and> r \<le> 3 \<and> 0 \<le> c \<and> c \<le> 3 \<and> 0 \<le> r' \<and> r' \<le> 3 \<and> 0 \<le> c' \<and> c' \<le> 3 \<and>
        adjacent (r, c) (r', c') \<and> sameValue (cell g r c) (cell g r' c')"
    by blast
next
  assume "\<exists>r c r' c'. 0 \<le> r \<and> r \<le> 3 \<and> 0 \<le> c \<and> c \<le> 3 \<and> 0 \<le> r' \<and> r' \<le> 3 \<and> 0 \<le> c' \<and> c' \<le> 3 \<and>
        adjacent (r, c) (r', c') \<and> sameValue (cell g r c) (cell g r' c')"
  then obtain r c r' c' where "0 \<le> r \<and> r \<le> 3 \<and> 0 \<le> c \<and> c \<le> 3 \<and> 0 \<le> r' \<and> r' \<le> 3 \<and> 0 \<le> c' \<and> c' \<le> 3 \<and>
        adjacent (r, c) (r', c') \<and> sameValue (cell g r c) (cell g r' c')"
    by blast
  then have "(r, c) \<in> set boardCells \<and> (r', c') \<in> set boardCells \<and> adjacent (r, c) (r', c') \<and>
             sameValue (cellAt g (r, c)) (cellAt g (r', c'))"
    by (simp add: in_boardCells cellAt_def)
  then show "hasEqualAdjacent g" unfolding hasEqualAdjacent_def list_ex_iff by blast
qed

lemma adjacent_cases:
  "adjacent (r, c) (r', c') \<longleftrightarrow>
     (r' = r \<and> c' = c + 1) \<or> (r' = r \<and> c' = c - 1) \<or> (r' = r + 1 \<and> c' = c) \<or> (r' = r - 1 \<and> c' = c)"
  unfolding adjacent_def by (simp add: abs_if) arith

lemma sameValue_full: "x \<noteq> None \<Longrightarrow> y \<noteq> None \<Longrightarrow> sameValue x y \<longleftrightarrow> x = y"
  by (cases x; cases y) (simp_all add: sameValue_def)

lemma sameValue_sym: "sameValue x y = sameValue y x"
  by (cases x; cases y) (auto simp: sameValue_def)

lemma sameValue_refl: "x \<noteq> None \<Longrightarrow> sameValue x x"
  by (cases x) (simp_all add: sameValue_def)

lemma sameValue_eq: "sameValue x y \<Longrightarrow> x = y"
  by (cases x; cases y) (simp_all add: sameValue_def)

lemma scan_imp_adjacent:
  assumes full: "\<And>r c. 0 \<le> r \<Longrightarrow> r \<le> 3 \<Longrightarrow> 0 \<le> c \<Longrightarrow> c \<le> 3 \<Longrightarrow> cell g r c \<noteq> None"
    and "scanNeighbours g"
  shows "hasEqualAdjacent g"
proof -
  from assms(2) obtain r c where rc: "0 \<le> r" "r \<le> 3" "0 \<le> c" "c \<le> 3"
    and e: "(c < 3 \<and> cell g r c = cell g r (c + 1)) \<or> (r < 3 \<and> cell g r c = cell g (r + 1) c)"
    unfolding scanNeighbours_def by blast
  have ne: "cell g r c \<noteq> None" using full rc by blast
  from e show "hasEqualAdjacent g"
  proof
    assume a: "c < 3 \<and> cell g r c = cell g r (c + 1)"
    then have "sameValue (cell g r c) (cell g r (c + 1))"
      using sameValue_refl [OF ne] by metis
    moreover have "adjacent (r, c) (r, c + 1)" by (simp add: adjacent_def)
    moreover have "0 \<le> c + 1" "c + 1 \<le> 3" using rc a by auto
    ultimately show ?thesis unfolding hasEqualAdjacent_iff using rc by blast
  next
    assume a: "r < 3 \<and> cell g r c = cell g (r + 1) c"
    then have "sameValue (cell g r c) (cell g (r + 1) c)"
      using sameValue_refl [OF ne] by metis
    moreover have "adjacent (r, c) (r + 1, c)" by (simp add: adjacent_def)
    moreover have "0 \<le> r + 1" "r + 1 \<le> 3" using rc a by auto
    ultimately show ?thesis unfolding hasEqualAdjacent_iff using rc by blast
  qed
qed

lemma adjacent_imp_scan:
  assumes "hasEqualAdjacent g"
  shows "scanNeighbours g"
proof -
  from assms obtain r c r' c' where rc: "0 \<le> r" "r \<le> 3" "0 \<le> c" "c \<le> 3" "0 \<le> r'" "r' \<le> 3" "0 \<le> c'" "c' \<le> 3"
    and a: "adjacent (r, c) (r', c')" and s: "sameValue (cell g r c) (cell g r' c')"
    unfolding hasEqualAdjacent_iff by blast
  from s have eq: "cell g r c = cell g r' c'" by (rule sameValue_eq)
  from a consider "r' = r \<and> c' = c + 1" | "r' = r \<and> c' = c - 1" | "r' = r + 1 \<and> c' = c" | "r' = r - 1 \<and> c' = c"
    unfolding adjacent_cases by blast
  then show ?thesis
  proof cases
    case 1
    then have "0 \<le> r \<and> r \<le> 3 \<and> 0 \<le> c \<and> c \<le> 3 \<and> c < 3 \<and> cell g r c = cell g r (c + 1)"
      using rc eq by simp
    then show ?thesis unfolding scanNeighbours_def by blast
  next
    case 2
    then have "0 \<le> r \<and> r \<le> 3 \<and> 0 \<le> c' \<and> c' \<le> 3 \<and> c' < 3 \<and> cell g r c' = cell g r (c' + 1)"
      using rc eq by simp
    then show ?thesis unfolding scanNeighbours_def by blast
  next
    case 3
    then have "0 \<le> r \<and> r \<le> 3 \<and> 0 \<le> c \<and> c \<le> 3 \<and> r < 3 \<and> cell g r c = cell g (r + 1) c"
      using rc eq by simp
    then show ?thesis unfolding scanNeighbours_def by blast
  next
    case 4
    then have "0 \<le> r' \<and> r' \<le> 3 \<and> 0 \<le> c \<and> c \<le> 3 \<and> r' < 3 \<and> cell g r' c = cell g (r' + 1) c"
      using rc eq by simp
    then show ?thesis unfolding scanNeighbours_def by blast
  qed
qed

lemma scan_full:
  assumes "\<not> hasEmptyCell g"
  shows "scanNeighbours g = hasEqualAdjacent g"
proof -
  have full: "cell g r c \<noteq> None" if "0 \<le> r" "r \<le> 3" "0 \<le> c" "c \<le> 3" for r c
  proof
    assume "cell g r c = None"
    with that have "\<exists>r c. 0 \<le> r \<and> r \<le> 3 \<and> 0 \<le> c \<and> c \<le> 3 \<and> cell g r c = None" by blast
    then have "hasEmptyCell g" by (rule hasEmptyCell_iff [THEN iffD2])
    with assms show False by (rule notE)
  qed
  show ?thesis
  proof
    assume s: "scanNeighbours g"
    show "hasEqualAdjacent g" by (rule scan_imp_adjacent [OF full s])
  next
    assume "hasEqualAdjacent g"
    then show "scanNeighbours g" by (rule adjacent_imp_scan)
  qed
qed

lemma scan_cong:
  assumes "\<And>r c. 0 \<le> r \<Longrightarrow> r \<le> 3 \<Longrightarrow> 0 \<le> c \<Longrightarrow> c \<le> 3 \<Longrightarrow> cell g r c = cell g' r c"
  shows "scanNeighbours g = scanNeighbours g'"
proof -
  have "((c < 3 \<and> cell g r c = cell g r (c + 1)) \<or> (r < 3 \<and> cell g r c = cell g (r + 1) c)) =
        ((c < 3 \<and> cell g' r c = cell g' r (c + 1)) \<or> (r < 3 \<and> cell g' r c = cell g' (r + 1) c))"
    if "0 \<le> r" "r \<le> 3" "0 \<le> c" "c \<le> 3" for r c
    using that assms [of r c] assms [of r "c + 1"] assms [of "r + 1" c] by auto
  then show ?thesis unfolding scanNeighbours_def by blast
qed

lemma canMove_grid_iff:
  assumes "wf_grid g"
  shows "canMove_grid g = (hasEmptyCell g \<or> hasEqualAdjacent g)"
proof -
  have e: "(getEmptyCells_grid g \<noteq> []) = hasEmptyCell g"
  proof -
    have "set (getEmptyCells_grid g) = {(r, c). r \<in> set [0 ..< 4] \<and> c \<in> set [0 ..< 4] \<and> g ! r ! c = None}"
      unfolding getEmptyCells_grid_def by (rule set_comprehension)
    then have "(getEmptyCells_grid g \<noteq> []) = (\<exists>r<4. \<exists>c<4. g ! r ! c = None)"
      by (auto simp: set_empty [symmetric] simp del: set_empty)
    also have "\<dots> = list_ex (\<lambda>r. list_ex (\<lambda>c. g ! r ! c = None) [0 ..< 4]) [0 ..< 4]"
      by (simp add: list_ex_iff Bex_def)
    also have "\<dots> = hasEmptyCell g"
      unfolding list_ex_nat4 hasEmptyCell_iff cell_def by blast
    finally show ?thesis .
  qed
  have s: "list_ex (\<lambda>r. list_ex (\<lambda>c.
             (c < 3 \<and> g ! r ! c = g ! r ! (c + 1)) \<or> (r < 3 \<and> g ! r ! c = g ! (r + 1) ! c))
             [0 ..< 4]) [0 ..< 4] = scanNeighbours g"
  proof -
    have "((nat c < 3 \<and> g ! nat r ! nat c = g ! nat r ! (nat c + 1)) \<or>
           (nat r < 3 \<and> g ! nat r ! nat c = g ! (nat r + 1) ! nat c)) =
          ((c < 3 \<and> cell g r c = cell g r (c + 1)) \<or> (r < 3 \<and> cell g r c = cell g (r + 1) c))"
      if "0 \<le> r" "0 \<le> c" for r c
    proof -
      have "nat c < 3 \<longleftrightarrow> c < 3" "nat r < 3 \<longleftrightarrow> r < 3" using that by auto
      then show ?thesis using that by (simp add: cell_def nat_add_distrib)
    qed
    then show ?thesis unfolding list_ex_nat4 scanNeighbours_def by blast
  qed
  show ?thesis
  proof (cases "hasEmptyCell g")
    case True
    then show ?thesis using e by (simp add: canMove_grid_def)
  next
    case False
    then show ?thesis using e s scan_full [OF False] by (simp add: canMove_grid_def)
  qed
qed

lemma tileAt_None_iff: "tileAt ts r c = None \<longleftrightarrow> (r, c) \<notin> set (map (\<lambda>t. (row t, col t)) ts)"
  by (auto simp: tileAt_def find_None_iff)

lemma range4:
  "((r = 0 \<or> r = 1 \<or> r = 2 \<or> r = 3) \<and> (c = 0 \<or> c = 1 \<or> c = 2 \<or> c = 3) \<and> P) =
     (0 \<le> r \<and> r \<le> 3 \<and> 0 \<le> c \<and> c \<le> 3 \<and> P)" for r c :: int
  by arith

lemma in_getEmptyCells:
  "(r, c) \<in> set (getEmptyCells ts) \<longleftrightarrow>
     0 \<le> r \<and> r \<le> 3 \<and> 0 \<le> c \<and> c \<le> 3 \<and> tileAt ts r c = None"
  unfolding set_getEmptyCells tileAt_None_iff by (simp add: range4)

lemma getEmptyCells_hasEmptyCell: "(getEmptyCells ts \<noteq> []) = hasEmptyCell (valuesOf ts)"
proof
  assume "getEmptyCells ts \<noteq> []"
  then obtain p where "p \<in> set (getEmptyCells ts)" by (cases "getEmptyCells ts") auto
  then have p: "0 \<le> fst p \<and> fst p \<le> 3 \<and> 0 \<le> snd p \<and> snd p \<le> 3" "tileAt ts (fst p) (snd p) = None"
    using in_getEmptyCells [of "fst p" "snd p" ts] by simp_all
  then have "cell (valuesOf ts) (fst p) (snd p) = None" by (simp add: cell_valuesOf)
  with p(1) show "hasEmptyCell (valuesOf ts)" unfolding hasEmptyCell_iff by blast
next
  assume "hasEmptyCell (valuesOf ts)"
  then obtain r c where rc: "0 \<le> r \<and> r \<le> 3 \<and> 0 \<le> c \<and> c \<le> 3" "cell (valuesOf ts) r c = None"
    unfolding hasEmptyCell_iff by blast
  then have "tileAt ts r c = None" by (simp add: cell_valuesOf)
  with rc(1) have "(r, c) \<in> set (getEmptyCells ts)" by (simp add: in_getEmptyCells)
  then show "getEmptyCells ts \<noteq> []" by auto
qed

lemma js_set_map:
  "map (map_option f) (js_set xs i v) = js_set (map (map_option f) xs) i (map_option f v)"
  by (simp add: js_set_def map_update)

lemma placeValue_placeTile:
  assumes "length g = 4"
  shows "placeValue t (valueGrid g) =
         (case placeTile t g of Inl e \<Rightarrow> Inl e | Inr g' \<Rightarrow> Inr (valueGrid g'))"
    and "\<And>g'. placeTile t g = Inr g' \<Longrightarrow> length g' = 4"
proof -
  show "placeValue t (valueGrid g) =
         (case placeTile t g of Inl e \<Rightarrow> Inl e | Inr g' \<Rightarrow> Inr (valueGrid g'))"
  proof (cases "row t < 0 \<or> row t > 3")
    case True
    then show ?thesis by (simp add: placeValue_def placeTile_def)
  next
    case False
    then have "nat (row t) < length g" using assms by auto
    then show ?thesis
      using False
      by (simp add: placeValue_def placeTile_def valueGrid_def map_update js_set_map clearFlags_def)
  qed
  show "\<And>g'. placeTile t g = Inr g' \<Longrightarrow> length g' = 4"
    using assms by (auto simp: placeTile_def split: if_splits)
qed

lemma placeValues_placeTiles:
  "length g = 4 \<Longrightarrow>
   placeValues ts (valueGrid g) =
     (case placeTiles ts g of Inl e \<Rightarrow> Inl e | Inr g' \<Rightarrow> Inr (valueGrid g'))"
proof (induction ts arbitrary: g)
  case Nil
  then show ?case by simp
next
  case (Cons t ts)
  show ?case
  proof (cases "placeTile t g")
    case (Inl e)
    then show ?thesis using placeValue_placeTile(1) [OF Cons.prems, of t] by simp
  next
    case (Inr g')
    then have "length g' = 4" using placeValue_placeTile(2) [OF Cons.prems] by blast
    from Cons.IH [OF this] Inr show ?thesis
      using placeValue_placeTile(1) [OF Cons.prems, of t] by simp
  qed
qed

lemma cell_valueGrid:
  assumes "wf_grid g" "0 \<le> r \<and> r \<le> 3 \<and> 0 \<le> c \<and> c \<le> 3"
  shows "cell (valueGrid g) r c = map_option value_t (cell g r c)"
proof -
  have "nat r < length g" using assms by (auto simp: wf_grid_def)
  moreover then have "nat c < length (g ! nat r)" using assms by (auto simp: wf_grid_def list_all_length)
  ultimately show ?thesis by (simp add: valueGrid_def cell_def)
qed

lemma canMove_iff:
  assumes "board ts"
  shows "canMove ts = Inr (hasEmptyCell (valuesOf ts) \<or> hasEqualAdjacent (valuesOf ts))"
proof (cases "hasEmptyCell (valuesOf ts)")
  case True
  then have "getEmptyCells ts \<noteq> []" by (simp add: getEmptyCells_hasEmptyCell)
  then show ?thesis using True by (simp add: canMove_def)
next
  case False
  then have e: "getEmptyCells ts = []" using getEmptyCells_hasEmptyCell [of ts] by simp
  from assms have b: "list_all onBoard ts" "distinct (map (\<lambda>t. (row t, col t)) ts)"
    by (simp_all add: board_def)
  from placeTiles_empty [OF b] obtain g0 where g0: "placeTiles ts emptyTileGrid = Inr g0" "wf_grid g0"
    and c: "\<And>r c. 0 \<le> r \<and> r \<le> 3 \<and> 0 \<le> c \<and> c \<le> 3 \<Longrightarrow> cell g0 r c = map_option clearFlags (tileAt ts r c)"
    by blast
  have "valueGrid emptyTileGrid = replicate 4 (replicate 4 None)"
    by (simp add: valueGrid_def emptyTileGrid_def)
  then have pv: "placeValues ts (replicate 4 (replicate 4 None)) = Inr (valueGrid g0)"
    using placeValues_placeTiles [of emptyTileGrid ts] g0(1) by (simp add: emptyTileGrid_def)
  have "cell (valueGrid g0) r c = cell (valuesOf ts) r c"
    if "0 \<le> r" "r \<le> 3" "0 \<le> c" "c \<le> 3" for r c
    using that cell_valueGrid [OF g0(2), of r c] c [of r c] cell_valuesOf [of r c ts]
    by (simp add: option.map_comp o_def clearFlags_def)
  then have "scanNeighbours (valueGrid g0) = scanNeighbours (valuesOf ts)" by (rule scan_cong)
  then have "hasEqualNeighbours (valueGrid g0) = hasEqualAdjacent (valuesOf ts)"
    using scan_full [OF False] by (simp add: hasEqualNeighbours_scan)
  then show ?thesis using e pv False by (simp add: canMove_def)
qed

text \<open>
  C4: on every board with one tile per cell, \<open>canMove\<close> returns (it does not raise), and
  its result is true exactly when the board has an empty cell or two occupied cells that
  are neighbours in a row or in a column and hold the same value. So it is false exactly
  when the board is full and no two neighbours share a value, and it is true whenever a
  cell is empty. The same holds for \<open>canMove_grid\<close> on every 4x4 grid.
\<close>

theorem canMove_characterised:
  "(board ts \<longrightarrow> canMove ts = Inr (hasEmptyCell (valuesOf ts) \<or> hasEqualAdjacent (valuesOf ts))) \<and>
   (wf_grid g \<longrightarrow> canMove_grid g = (hasEmptyCell g \<or> hasEqualAdjacent g))"
  using canMove_iff [of ts] canMove_grid_iff [of g] by blast

theorem canMove_characterised_witness:
  "board example_full \<and> \<not> hasEmptyCell (valuesOf example_full) \<and>
   \<not> hasEqualAdjacent (valuesOf example_full) \<and> canMove example_full = Inr False \<and>
   wf_grid example_full_grid \<and> canMove_grid example_full_grid = False \<and>
   board example_row \<and> hasEmptyCell (valuesOf example_row) \<and> canMove example_row = Inr True"
proof -
  have b: "board example_full" by code_simp
  have e: "\<not> hasEmptyCell (valuesOf example_full)" by code_simp
  have a: "\<not> hasEqualAdjacent (valuesOf example_full)" by code_simp
  have w: "wf_grid example_full_grid" by code_simp
  have ge: "\<not> hasEmptyCell example_full_grid" by code_simp
  have ga: "\<not> hasEqualAdjacent example_full_grid" by code_simp
  have b2: "board example_row" by code_simp
  have e2: "hasEmptyCell (valuesOf example_row)" by code_simp
  from canMove_characterised [of example_full example_full_grid] b e a w ge ga
  have 1: "canMove example_full = Inr False" "canMove_grid example_full_grid = False" by simp_all
  from canMove_characterised [of example_row example_full_grid] b2 e2
  have 2: "canMove example_row = Inr True" by simp
  from b e a w 1 b2 e2 2 show ?thesis by simp
qed

subsection \<open>The range of the numbers on a board of small values\<close>

lemma pairUp_values: "(v, f) \<in> set (pairUp xs) \<Longrightarrow> \<exists>x\<in>set xs. v = x \<or> v = x * 2"
  by (induction xs rule: pairUp.induct) (auto split: if_splits)

lemma move_total:
  assumes "board ts"
  shows "\<exists>res n'. move ts d n = Inr (res, n') \<and> board (tiles res) \<and>
           sum_list (map value_t (tiles res)) = sum_list (map value_t ts)"
proof -
  from move_flines [OF assms, of d n] obtain res n' where
    mv: "move ts d n = Inr (res, n')" and b: "board (tiles res)"
    and fl: "\<forall>k<4. fline d (tiles res) k = lineResult (vline d ts k)"
    by blast
  have v: "(\<lambda>t. fst (tileAbs t)) = value_t" by (simp add: tileAbs_def)
  have "sum_list (map value_t (tiles res)) = (\<Sum>k<4. optSum fst (fline d (tiles res) k))"
    using tiles_sum_flines [OF b, of fst d] by (simp add: v)
  also have "\<dots> = (\<Sum>k<4. sum_list (compact (vline d ts k)))"
    using fl by (simp add: optSum_lineResult sum_pairUp)
  also have "\<dots> = sum_list (map value_t ts)"
    using tiles_sum_flines [OF assms, of fst d] by (simp add: v optSum_fst vline_fline)
  finally show ?thesis using mv b by blast
qed

lemma sum_list_bounded:
  fixes f :: "'a \<Rightarrow> int"
  assumes "\<forall>x\<in>set xs. f x \<le> B"
  shows "sum_list (map f xs) \<le> int (length xs) * B"
  using assms by (induction xs) (auto simp: algebra_simps)

lemma sum_filter_le:
  fixes f :: "'a \<Rightarrow> int"
  assumes "\<forall>x\<in>set xs. 0 \<le> f x"
  shows "sum_list (map f (filter P xs)) \<le> sum_list (map f xs)"
  using assms by (induction xs) auto

text \<open>
  On a well-formed board whose values are at most \<open>2 ^ 48\<close>, the tiles of the result of a
  move have values between 1 and \<open>2 ^ 49\<close>, and the score is between 0 and \<open>2 ^ 52\<close>.
  The score is a sum of positive values, so every partial sum of it, in whatever order the
  merges are counted, lies in that range as well: the engine computes no number beyond
  \<open>2 ^ 53\<close> on such a board, and JavaScript's arithmetic on the numbers it computes is
  the arithmetic of the integers.
\<close>

lemma move_exact_range:
  assumes "well_formed ts" "safeValues ts"
  shows "\<exists>res n'. move ts d n = Inr (res, n') \<and> 0 \<le> score res \<and> score res \<le> 2 ^ 52 \<and>
           (\<forall>t\<in>set (tiles res). 0 < value_t t \<and> value_t t \<le> 2 ^ 49)"
proof -
  from assms(1) have b: "board ts" by (rule well_formed_imp_board)
  from assms have vs: "\<forall>a\<in>set ts. 2 \<le> value_t a \<and> value_t a \<le> 2 ^ 48"
    by (auto simp: well_formed_def safeValues_def list_all_iff)
  from move_flines [OF b, of d n] obtain res n' where
    mv: "move ts d n = Inr (res, n')" and br: "board (tiles res)"
    and fl: "\<forall>k<4. fline d (tiles res) k = lineResult (vline d ts k)"
    by blast
  from move_total [OF b, of d n] mv
  have tot: "sum_list (map value_t (tiles res)) = sum_list (map value_t ts)" by simp
  from move_merged_tiles [OF b, of d n] mv vs
  have sc: "score res = sum_list (map value_t (filter (\<lambda>t. isMerged t = Some True) (tiles res)))"
    and nn: "0 \<le> score res" by auto
  have val: "0 < value_t t \<and> value_t t \<le> 2 ^ 49" if t: "t \<in> set (tiles res)" for t
  proof -
    from member_fline [OF br t, of d] obtain k where
      k: "k < 4" "Some (tileAbs t) \<in> set (fline d (tiles res) k)" by blast
    with fl have "Some (tileAbs t) \<in> set (lineResult (vline d ts k))" by simp
    then have "(value_t t, isMerged t = Some True) \<in> set (pairUp (compact (vline d ts k)))"
      by (auto simp: lineResult_def tileAbs_def)
    from pairUp_values [OF this] obtain x where
      x: "x \<in> set (compact (vline d ts k))" "value_t t = x \<or> value_t t = x * 2" by blast
    from vline_values [OF x(1)] vs have "2 \<le> x \<and> x \<le> 2 ^ 48" by auto
    with x(2) show ?thesis by auto
  qed
  have "score res \<le> sum_list (map value_t (tiles res))"
    unfolding sc using val by (intro sum_filter_le) (auto simp: less_imp_le)
  also have "\<dots> = sum_list (map value_t ts)" by (rule tot)
  also have "\<dots> \<le> int (length ts) * 2 ^ 48"
    using vs by (intro sum_list_bounded) auto
  also have "\<dots> \<le> 16 * 2 ^ 48"
    using assms(1) by (simp add: well_formed_def)
  finally have "score res \<le> 2 ^ 52" by simp
  with mv nn val show ?thesis by blast
qed

subsection \<open>Undo\<close>

lemma handleUndo_None:
  "previousState (gameState c) = None \<Longrightarrow> gameState (handleUndo c) = gameState c"
  by (simp add: handleUndo_def clearPendingSpawn_def Let_def)

lemma handleUndo_Some:
  "previousState (gameState c) = Some (ts, sc) \<Longrightarrow>
   gameState (handleUndo c) =
     (gameState c)\<lparr>tiles_s := ts, score_s := sc, gameOver := False, won := False, previousState := None\<rparr>"
  by (simp add: handleUndo_def clearPendingSpawn_def Let_def)

lemma handleUndo_previousState: "previousState (gameState (handleUndo c)) = None"
  by (cases "previousState (gameState c)")
     (auto simp: handleUndo_def clearPendingSpawn_def Let_def)

lemma handleUndo_twice: "gameState (handleUndo (handleUndo c)) = gameState (handleUndo c)"
  by (rule handleUndo_None) (rule handleUndo_previousState)

lemma handleMove_snapshot:
  assumes "handleMove d c = Inr c2" "gameState c2 \<noteq> gameState c"
  shows "previousState (gameState c2) = Some (tiles_s (gameState c), score_s (gameState c))"
  using assms
  by (auto simp: handleMove_def Let_def cloneTiles_def split: if_splits sum.splits prod.splits)

lemma spawnTimer_snapshot:
  assumes "spawnTimer u1 u2 c = Inr c'"
  shows "previousState (gameState c') = previousState (gameState c)"
  using assms
  by (auto simp: spawnTimer_def Let_def split: option.splits if_splits sum.splits prod.splits)

lemma handleUndo_grid_previousState: "previousState_g (handleUndo_grid s) = None"
  by (cases "previousState_g s") (auto simp: handleUndo_grid_def)

lemma handleMove_grid_snapshot:
  assumes "handleMove_grid d u1 u2 s \<noteq> s"
  shows "previousState_g (handleMove_grid d u1 u2 s) = Some (grid_s s, score_g s)"
  using assms by (auto simp: handleMove_grid_def Let_def split: if_splits)

text \<open>
  C9: undo is single-level, in both controllers. Without a snapshot \<open>handleUndo\<close> leaves
  the game state as it is; with one it puts the tiles and the score of the snapshot back,
  clears \<open>gameOver\<close>, \<open>won\<close> and the snapshot and keeps the other fields, so that a
  second undo changes nothing. After a move (with its spawn) and a second move that the
  controller accepts, that is, one that changes the game state, undo gives the tiles and
  the score of the state after the first move and its spawn, whether the spawn of the
  second move has happened or not. (A move that the controller does not accept leaves the
  state as it is, snapshot included.)
\<close>

theorem undo_single_level:
  "(previousState (gameState c) = None \<longrightarrow> gameState (handleUndo c) = gameState c) \<and>
   (previousState (gameState c) = Some (ts, sc) \<longrightarrow>
      gameState (handleUndo c) =
        (gameState c)\<lparr>tiles_s := ts, score_s := sc, gameOver := False, won := False,
                      previousState := None\<rparr>) \<and>
   gameState (handleUndo (handleUndo c)) = gameState (handleUndo c) \<and>
   (handleMove d1 c = Inr c1 \<and> spawnTimer u1 u2 c1 = Inr c1' \<and>
    handleMove d2 c1' = Inr c2 \<and> gameState c2 \<noteq> gameState c1' \<longrightarrow>
      tiles_s (gameState (handleUndo c2)) = tiles_s (gameState c1') \<and>
      score_s (gameState (handleUndo c2)) = score_s (gameState c1') \<and>
      (\<forall>c2'. spawnTimer u3 u4 c2 = Inr c2' \<longrightarrow>
         tiles_s (gameState (handleUndo c2')) = tiles_s (gameState c1') \<and>
         score_s (gameState (handleUndo c2')) = score_s (gameState c1'))) \<and>
   (previousState_g s = None \<longrightarrow> handleUndo_grid s = s) \<and>
   (previousState_g s = Some (g, sg) \<longrightarrow>
      handleUndo_grid s =
        s\<lparr>grid_s := g, score_g := sg, gameOver_g := False, won_g := False, previousState_g := None\<rparr>) \<and>
   handleUndo_grid (handleUndo_grid s) = handleUndo_grid s \<and>
   (handleMove_grid d2 u3 u4 (handleMove_grid d1 u1 u2 s) \<noteq> handleMove_grid d1 u1 u2 s \<longrightarrow>
      grid_s (handleUndo_grid (handleMove_grid d2 u3 u4 (handleMove_grid d1 u1 u2 s))) =
        grid_s (handleMove_grid d1 u1 u2 s) \<and>
      score_g (handleUndo_grid (handleMove_grid d2 u3 u4 (handleMove_grid d1 u1 u2 s))) =
        score_g (handleMove_grid d1 u1 u2 s))"
proof (intro conjI impI allI)
  show "gameState (handleUndo (handleUndo c)) = gameState (handleUndo c)"
    by (rule handleUndo_twice)
next
  assume "previousState (gameState c) = None"
  then show "gameState (handleUndo c) = gameState c" by (rule handleUndo_None)
next
  assume "previousState (gameState c) = Some (ts, sc)"
  then show "gameState (handleUndo c) =
        (gameState c)\<lparr>tiles_s := ts, score_s := sc, gameOver := False, won := False,
                      previousState := None\<rparr>" by (rule handleUndo_Some)
next
  assume a: "handleMove d1 c = Inr c1 \<and> spawnTimer u1 u2 c1 = Inr c1' \<and>
    handleMove d2 c1' = Inr c2 \<and> gameState c2 \<noteq> gameState c1'"
  then have p: "previousState (gameState c2) = Some (tiles_s (gameState c1'), score_s (gameState c1'))"
    by (intro handleMove_snapshot [of d2]) simp_all
  from handleUndo_Some [OF p]
  show "tiles_s (gameState (handleUndo c2)) = tiles_s (gameState c1')"
    and "score_s (gameState (handleUndo c2)) = score_s (gameState c1')" by simp_all
  fix c2' assume "spawnTimer u3 u4 c2 = Inr c2'"
  from spawnTimer_snapshot [OF this] p
  have "previousState (gameState c2') = Some (tiles_s (gameState c1'), score_s (gameState c1'))" by simp
  from handleUndo_Some [OF this]
  show "tiles_s (gameState (handleUndo c2')) = tiles_s (gameState c1')"
    and "score_s (gameState (handleUndo c2')) = score_s (gameState c1')" by simp_all
next
  assume "previousState_g s = None"
  then show "handleUndo_grid s = s" by (simp add: handleUndo_grid_def)
next
  assume "previousState_g s = Some (g, sg)"
  then show "handleUndo_grid s =
        s\<lparr>grid_s := g, score_g := sg, gameOver_g := False, won_g := False, previousState_g := None\<rparr>"
    by (simp add: handleUndo_grid_def)
next
  show "handleUndo_grid (handleUndo_grid s) = handleUndo_grid s"
    using handleUndo_grid_previousState [of s] by (simp add: handleUndo_grid_def [of "handleUndo_grid s"])
next
  let ?s1 = "handleMove_grid d1 u1 u2 s"
  assume "handleMove_grid d2 u3 u4 ?s1 \<noteq> ?s1"
  from handleMove_grid_snapshot [OF this]
  show "grid_s (handleUndo_grid (handleMove_grid d2 u3 u4 ?s1)) = grid_s ?s1"
    and "score_g (handleUndo_grid (handleMove_grid d2 u3 u4 ?s1)) = score_g ?s1"
    by (simp_all add: handleUndo_grid_def [of "handleMove_grid d2 u3 u4 ?s1"])
qed

theorem undo_single_level_witness:
  "previousState (gameState example_start) = None \<and>
   gameState (handleUndo example_start) = gameState example_start \<and>
   handleMove Left example_start = Inr example_moved \<and>
   spawnTimer 0 0 example_moved = Inr example_spawned \<and>
   handleMove Up example_spawned = Inr example_second \<and>
   gameState example_second \<noteq> gameState example_spawned \<and>
   tiles_s (gameState example_start) = [mkTile 1 2 0 1, mkTile 2 2 1 2] \<and>
   tiles_s (gameState example_spawned) =
     [mkTile 1 2 0 0, mkTile 2 2 1 0,
      \<lparr>id_t = 3, value_t = 2, row = 0, col = 1, isNew = Some True, isMerged = None\<rparr>] \<and>
   tiles_s (gameState (handleUndo example_second)) = tiles_s (gameState example_spawned) \<and>
   score_s (gameState (handleUndo example_second)) = score_s (gameState example_spawned) \<and>
   previousState (gameState example_second) = Some (tiles_s (gameState example_spawned), 0) \<and>
   gameState (handleUndo example_second) =
     (gameState example_second)\<lparr>tiles_s := tiles_s (gameState example_spawned), score_s := 0,
        gameOver := False, won := False, previousState := None\<rparr> \<and>
   gameState (handleUndo (handleUndo example_second)) = gameState (handleUndo example_second) \<and>
   previousState_g example_start_grid = None \<and>
   handleUndo_grid example_start_grid = example_start_grid \<and>
   handleMove_grid Up 0 0 example_moved_grid \<noteq> example_moved_grid \<and>
   grid_s example_moved_grid =
     [[Some 2, Some 2, None, None], [Some 2, None, None, None],
      [None, None, None, None], [None, None, None, None]] \<and>
   grid_s (handleUndo_grid (handleMove_grid Up 0 0 example_moved_grid)) = grid_s example_moved_grid \<and>
   score_g (handleUndo_grid (handleMove_grid Up 0 0 example_moved_grid)) = score_g example_moved_grid"
proof -
  have p0: "previousState (gameState example_start) = None" by code_simp
  have m1: "handleMove Left example_start = Inr example_moved"
    unfolding example_moved_def by code_simp
  have m2: "spawnTimer 0 0 example_moved = Inr example_spawned"
    unfolding example_spawned_def example_moved_def by code_simp
  have m3: "handleMove Up example_spawned = Inr example_second"
    unfolding example_second_def example_spawned_def example_moved_def by code_simp
  have m4: "gameState example_second \<noteq> gameState example_spawned"
    unfolding example_second_def example_spawned_def example_moved_def by code_simp
  have t0: "tiles_s (gameState example_start) = [mkTile 1 2 0 1, mkTile 2 2 1 2]" by code_simp
  have t1: "tiles_s (gameState example_spawned) =
     [mkTile 1 2 0 0, mkTile 2 2 1 0,
      \<lparr>id_t = 3, value_t = 2, row = 0, col = 1, isNew = Some True, isMerged = None\<rparr>]"
    unfolding example_spawned_def example_moved_def by code_simp
  have p2: "previousState (gameState example_second) = Some (tiles_s (gameState example_spawned), 0)"
    unfolding example_second_def example_spawned_def example_moved_def by code_simp
  have g0: "previousState_g example_start_grid = None" by code_simp
  have g1: "handleMove_grid Up 0 0 example_moved_grid \<noteq> example_moved_grid"
    unfolding example_moved_grid_def by code_simp
  have g2: "grid_s example_moved_grid =
     [[Some 2, Some 2, None, None], [Some 2, None, None, None],
      [None, None, None, None], [None, None, None, None]]"
    unfolding example_moved_grid_def by code_simp
  note a = undo_single_level [where c = example_start and ?d1.0 = Left and ?c1.0 = example_moved
      and ?u1.0 = 0 and ?u2.0 = 0 and c1' = example_spawned and ?d2.0 = Up and ?c2.0 = example_second
      and s = example_start_grid and ?u3.0 = 0 and ?u4.0 = 0]
  note b = undo_single_level [where c = example_second and ts = "tiles_s (gameState example_spawned)"
      and sc = 0]
  from a p0 have 1: "gameState (handleUndo example_start) = gameState example_start" by blast
  from a m1 m2 m3 m4 have 2:
    "tiles_s (gameState (handleUndo example_second)) = tiles_s (gameState example_spawned)"
    "score_s (gameState (handleUndo example_second)) = score_s (gameState example_spawned)"
    by blast+
  from b p2 have 3: "gameState (handleUndo example_second) =
     (gameState example_second)\<lparr>tiles_s := tiles_s (gameState example_spawned), score_s := 0,
        gameOver := False, won := False, previousState := None\<rparr>" by blast
  from b have 4: "gameState (handleUndo (handleUndo example_second)) = gameState (handleUndo example_second)"
    by blast
  from a g0 have 5: "handleUndo_grid example_start_grid = example_start_grid" by blast
  from a g1 have 6:
    "grid_s (handleUndo_grid (handleMove_grid Up 0 0 example_moved_grid)) = grid_s example_moved_grid"
    "score_g (handleUndo_grid (handleMove_grid Up 0 0 example_moved_grid)) = score_g example_moved_grid"
    unfolding example_moved_grid_def by blast+
  from p0 1 m1 m2 m3 m4 t0 t1 2 p2 3 4 g0 5 g1 g2 6 show ?thesis by blast
qed

end
